theory Spec2Isabelle
  imports Main
begin

section \<open>Values, nodes and the storage\<close>

text \<open>
  The values a cache holds (the type parameter \<open>V\<close> of \<open>LRUCache\<close>) and the results of a
  memoized function are JavaScript values. The model keeps the ones whose truthiness and
  JSON text differ: \<open>undefined\<close>, \<open>null\<close>, booleans, integral numbers and strings.
  Strings are lists of code units.
\<close>

datatype jsval = JUndefined | JNull | JBool bool | JNum int | JStr string

fun truthy :: "jsval \<Rightarrow> bool" where
  "truthy JUndefined = False"
| "truthy JNull = False"
| "truthy (JBool b) = b"
| "truthy (JNum n) = (n \<noteq> 0)"
| "truthy (JStr s) = (s \<noteq> [])"

text \<open>\<open>interface INode<V> { next?: string; prev?: string; value: V; key: string }\<close>\<close>

record node =
  node_value :: jsval
  node_key :: string
  node_next :: "string option"
  node_prev :: "string option"

datatype error = CorruptRecord | TypeError string | Raised string

subsection \<open>Numbers as text\<close>

definition digit_char :: "nat \<Rightarrow> char" where
  "digit_char d = char_of (48 + d)"

function string_of_nat :: "nat \<Rightarrow> string" where
  "string_of_nat n =
     (if n < 10 then [digit_char n] else string_of_nat (n div 10) @ [digit_char (n mod 10)])"
  by pat_completeness auto
termination
  by (relation "measure id") auto

text \<open>
  \<open>JSON.stringify(n)\<close> and \<open>String(n)\<close> of an integral number. The counters are the only
  numbers of the engine; they are integers here.
\<close>

definition string_of_int :: "int \<Rightarrow> string" where
  "string_of_int i = (if i < 0 then CHR ''-'' # string_of_nat (nat (- i)) else string_of_nat (nat i))"

definition is_digit :: "char \<Rightarrow> bool" where
  "is_digit c = (48 \<le> (of_char c :: nat) \<and> (of_char c :: nat) \<le> 57)"

definition nat_of_digits :: "string \<Rightarrow> nat" where
  "nat_of_digits s = foldl (\<lambda>a c. 10 * a + ((of_char c :: nat) - 48)) 0 s"

text \<open>
  \<open>Number(s)\<close> on the texts the engine itself writes: the empty string is 0, an optionally
  signed run of decimal digits is that integer, anything else is \<open>NaN\<close> (here \<open>None\<close>).
\<close>

definition Number :: "string \<Rightarrow> int option" where
  "Number s =
     (case s of
        [] \<Rightarrow> Some 0
      | c # cs \<Rightarrow>
          if c = CHR ''-'' \<and> cs \<noteq> [] \<and> list_all is_digit cs then Some (- int (nat_of_digits cs))
          else if c = CHR ''+'' \<and> cs \<noteq> [] \<and> list_all is_digit cs then Some (int (nat_of_digits cs))
          else if list_all is_digit s then Some (int (nat_of_digits s))
          else None)"

subsection \<open>JSON text of a node\<close>

definition hex_digit :: "nat \<Rightarrow> char" where
  "hex_digit d = (if d < 10 then char_of (48 + d) else char_of (87 + d))"

text \<open>The escapes of \<open>JSON.stringify\<close> for one code unit of a string.\<close>

definition escape_char :: "char \<Rightarrow> string" where
  "escape_char c =
     (let n = (of_char c :: nat) in
      if n = 34 then [CHR 0x5C, CHR 0x22]
      else if n = 92 then [CHR 0x5C, CHR 0x5C]
      else if n = 8 then [CHR 0x5C, CHR ''b'']
      else if n = 12 then [CHR 0x5C, CHR ''f'']
      else if n = 10 then [CHR 0x5C, CHR ''n'']
      else if n = 13 then [CHR 0x5C, CHR ''r'']
      else if n = 9 then [CHR 0x5C, CHR ''t'']
      else if n < 32 then [CHR 0x5C, CHR ''u'', CHR ''0'', CHR ''0'', hex_digit (n div 16), hex_digit (n mod 16)]
      else [c])"

definition json_string :: "string \<Rightarrow> string" where
  "json_string s = CHR 0x22 # concat (map escape_char s) @ [CHR 0x22]"

fun json_value :: "jsval \<Rightarrow> string" where
  "json_value JUndefined = []"
| "json_value JNull = ''null''"
| "json_value (JBool b) = (if b then ''true'' else ''false'')"
| "json_value (JNum n) = string_of_int n"
| "json_value (JStr s) = json_string s"

fun join_fields :: "string list \<Rightarrow> string" where
  "join_fields [] = []"
| "join_fields [f] = f"
| "join_fields (f # g # fs) = f @ CHR '','' # join_fields (g # fs)"

text \<open>
  \<open>JSON.stringify(node)\<close>: a property whose value is \<open>undefined\<close> is left out. The
  properties are written in the order \<open>value, key, next, prev\<close>, the order in which the
  engine creates them; the length of the text does not depend on the order.
\<close>

definition stringify :: "node \<Rightarrow> string" where
  "stringify n =
     CHR ''{'' #
     join_fields
       ((if node_value n = JUndefined then [] else [json_string ''value'' @ CHR '':'' # json_value (node_value n)])
        @ [json_string ''key'' @ CHR '':'' # json_string (node_key n)]
        @ (case node_next n of None \<Rightarrow> [] | Some k \<Rightarrow> [json_string ''next'' @ CHR '':'' # json_string k])
        @ (case node_prev n of None \<Rightarrow> [] | Some k \<Rightarrow> [json_string ''prev'' @ CHR '':'' # json_string k]))
     @ [CHR ''}'']"

subsection \<open>The storage\<close>

text \<open>
  \<open>IStorage\<close> maps a key to a string. A cell of the model is either a plain text (an
  anchor key, a counter) or the record of a node: the text \<open>JSON.stringify\<close> wrote and
  \<open>JSON.parse\<close> reads back. The methods of a storage may return their result at once (the
  default \<open>Map\<close>, \<open>InMemoryStorage\<close>) or a promise of it. The engine awaits every call but
  the two reads of the counters, so the model keeps the cells of the storage and, in the
  configuration, whether its \<open>get\<close> returns a promise.
\<close>

datatype cell = Text string | NodeCell node

type_synonym storage = "string \<rightharpoonup> cell"

fun cell_text :: "cell \<Rightarrow> string" where
  "cell_text (Text s) = s"
| "cell_text (NodeCell n) = stringify n"

definition storage_get :: "storage \<Rightarrow> string \<Rightarrow> string option" where
  "storage_get st k = map_option cell_text (st k)"

definition headKeyPointer :: string where "headKeyPointer = ''lru-cache-head-key-pointer''"
definition tailKeyPointer :: string where "tailKeyPointer = ''lru-cache-tail-key-pointer''"
definition charsSizeKey :: string where "charsSizeKey = ''lru-cache-characters-size''"
definition sizeKey :: string where "sizeKey = ''lru-cache-size''"

text \<open>
  The arguments of the constructor: the entry capacity, the byte capacity if there is
  one, and of the storage whether its \<open>get\<close> returns a promise.
\<close>

record config =
  capacity :: int
  charsCapacity :: "int option"
  promises :: bool

section \<open>The engine\<close>

text \<open>
  \<open>_getNode\<close>: an absent or empty text is \<open>undefined\<close>; the text of a node parses to the
  node. On any other text \<open>JSON.parse\<close> throws or returns something that is not a node;
  both are the error \<open>CorruptRecord\<close> here.
\<close>

definition getNode :: "string \<Rightarrow> storage \<Rightarrow> error + node option" where
  "getNode k st =
     (case st k of
        None \<Rightarrow> Inr None
      | Some (NodeCell n) \<Rightarrow> Inr (Some n)
      | Some (Text s) \<Rightarrow> if s = [] then Inr None else Inl CorruptRecord)"

definition setNode :: "string \<Rightarrow> node \<Rightarrow> storage \<Rightarrow> storage" where
  "setNode k n st = st(k \<mapsto> NodeCell n)"

definition getTail :: "storage \<Rightarrow> error + node option" where
  "getTail st =
     (case storage_get st tailKeyPointer of
        None \<Rightarrow> Inr None
      | Some tailKey \<Rightarrow> if tailKey \<noteq> [] then getNode tailKey st else Inr None)"

definition setTail :: "node \<Rightarrow> storage \<Rightarrow> error + storage" where
  "setTail newTailNode st =
     (case getTail st of
        Inl e \<Rightarrow> Inl e
      | Inr None \<Rightarrow> Inr st
      | Inr (Some currentTailNode) \<Rightarrow>
          if node_key currentTailNode \<noteq> node_key newTailNode then
            let st1 = setNode (node_key currentTailNode)
                        (currentTailNode\<lparr>node_prev := Some (node_key newTailNode)\<rparr>) st;
                st2 = setNode (node_key newTailNode)
                        (newTailNode\<lparr>node_next := Some (node_key currentTailNode), node_prev := None\<rparr>) st1
            in Inr (st2(tailKeyPointer \<mapsto> Text (node_key newTailNode)))
          else Inr st)"

definition getHead :: "storage \<Rightarrow> error + node option" where
  "getHead st =
     (case storage_get st headKeyPointer of
        None \<Rightarrow> Inr None
      | Some headKey \<Rightarrow> if headKey \<noteq> [] then getNode headKey st else Inr None)"

definition getMetadataEstimatedCharsSize :: int where
  "getMetadataEstimatedCharsSize =
     int (length sizeKey) + int (length charsSizeKey) + int (length headKeyPointer)
       + int (length tailKeyPointer) + 200"

definition initialize :: "node \<Rightarrow> storage \<Rightarrow> storage" where
  "initialize newNode st =
     (let st1 = st(tailKeyPointer \<mapsto> Text (node_key newNode));
          st2 = st1(headKeyPointer \<mapsto> Text (node_key newNode));
          st3 = st2(charsSizeKey \<mapsto> Text (string_of_int getMetadataEstimatedCharsSize))
      in setNode (node_key newNode) newNode st3)"

text \<open>\<open>_removeHead\<close> returns the node it read as the head, with the storage after the removal.\<close>

definition removeHead :: "storage \<Rightarrow> error + (node option \<times> storage)" where
  "removeHead st =
     (case getHead st of
        Inl e \<Rightarrow> Inl e
      | Inr None \<Rightarrow> Inr (None, st)
      | Inr (Some currentHead) \<Rightarrow>
          (case (case node_prev currentHead of
                   None \<Rightarrow> Inr st
                 | Some p \<Rightarrow>
                     if p = [] then Inr st
                     else (case getNode p st of
                             Inl e \<Rightarrow> Inl e
                           | Inr None \<Rightarrow> Inr st
                           | Inr (Some newHead) \<Rightarrow>
                               Inr ((setNode (node_key newHead) (newHead\<lparr>node_next := None\<rparr>) st)
                                      (headKeyPointer \<mapsto> Text (node_key newHead))))) of
             Inl e \<Rightarrow> Inl e
           | Inr st1 \<Rightarrow>
               Inr (Some currentHead,
                    if node_key currentHead \<noteq> [] then st1(node_key currentHead := None) else st1)))"

text \<open>
  \<open>Number(this.storage.get(key)) || 0\<close>. The call of \<open>get\<close> is not awaited: what a storage
  returns at once is converted, a promise converts to \<open>NaN\<close> and the result is 0.
\<close>

definition number_or_zero :: "string option \<Rightarrow> int" where
  "number_or_zero t = (case t of None \<Rightarrow> 0 | Some s \<Rightarrow> (case Number s of None \<Rightarrow> 0 | Some n \<Rightarrow> n))"

definition getSize :: "config \<Rightarrow> storage \<Rightarrow> int" where
  "getSize cfg st = (if promises cfg then 0 else number_or_zero (storage_get st sizeKey))"

definition getCharsSize :: "config \<Rightarrow> storage \<Rightarrow> int" where
  "getCharsSize cfg st = (if promises cfg then 0 else number_or_zero (storage_get st charsSizeKey))"

definition increaseSize :: "config \<Rightarrow> storage \<Rightarrow> storage" where
  "increaseSize cfg st = st(sizeKey \<mapsto> Text (string_of_int (getSize cfg st + 1)))"

definition decreaseSize :: "config \<Rightarrow> int \<Rightarrow> storage \<Rightarrow> storage" where
  "decreaseSize cfg itemsRemoved st =
     st(sizeKey \<mapsto> Text (string_of_int (getSize cfg st - itemsRemoved)))"

definition increaseCharsSize :: "config \<Rightarrow> int \<Rightarrow> storage \<Rightarrow> storage" where
  "increaseCharsSize cfg charsAdded st =
     st(charsSizeKey \<mapsto> Text (string_of_int (getCharsSize cfg st + charsAdded)))"

definition decreaseCharsSize :: "config \<Rightarrow> int \<Rightarrow> storage \<Rightarrow> storage" where
  "decreaseCharsSize cfg charsRemoved st =
     st(charsSizeKey \<mapsto> Text (string_of_int (getCharsSize cfg st - charsRemoved)))"

text \<open>
  \<open>__setAsTop\<close>: both neighbours are read before either is written; a neighbour that is
  absent is skipped.
\<close>

definition lookup_ref :: "string option \<Rightarrow> storage \<Rightarrow> error + node option" where
  "lookup_ref r st = (case r of None \<Rightarrow> Inr None | Some k \<Rightarrow> if k = [] then Inr None else getNode k st)"

definition setAsTop :: "node \<Rightarrow> storage \<Rightarrow> error + storage" where
  "setAsTop n st =
     (case lookup_ref (node_prev n) st of
        Inl e \<Rightarrow> Inl e
      | Inr previousNode \<Rightarrow>
          (case lookup_ref (node_next n) st of
             Inl e \<Rightarrow> Inl e
           | Inr nextNode \<Rightarrow>
               let st1 = (case previousNode of
                            None \<Rightarrow> st
                          | Some p \<Rightarrow> setNode (node_key p) (p\<lparr>node_next := node_next n\<rparr>) st);
                   st2 = (case nextNode of
                            None \<Rightarrow> st1
                          | Some x \<Rightarrow> setNode (node_key x) (x\<lparr>node_prev := node_prev n\<rparr>) st1);
                   st3 = (case (nextNode, previousNode) of
                            (None, Some p) \<Rightarrow> st2(headKeyPointer \<mapsto> Text (node_key p))
                          | _ \<Rightarrow> st2)
               in setTail n st3))"

definition lru_get :: "string \<Rightarrow> storage \<Rightarrow> error + (jsval \<times> storage)" where
  "lru_get k st =
     (case getNode k st of
        Inl e \<Rightarrow> Inl e
      | Inr None \<Rightarrow> Inr (JUndefined, st)
      | Inr (Some n) \<Rightarrow>
          if Some (node_key n) \<noteq> storage_get st tailKeyPointer then
            (case setAsTop n st of Inl e \<Rightarrow> Inl e | Inr st' \<Rightarrow> Inr (node_value n, st'))
          else Inr (node_value n, st))"

definition getNodeCharsSize :: "node \<Rightarrow> int" where
  "getNodeCharsSize n = int (length (stringify n)) + int (length (node_key n))"

definition getNewNodeEstimatedSize :: "string \<Rightarrow> jsval \<Rightarrow> int" where
  "getNewNodeEstimatedSize k v =
     getNodeCharsSize \<lparr>node_value = v, node_key = k, node_next = Some k, node_prev = Some k\<rparr>"

text \<open>
  The \<open>while\<close> loop of \<open>_checkCapacity\<close>. It need not end, so it is a partial function:
  \<open>None\<close> is a loop that runs forever.
\<close>

partial_function (option) evictLoop ::
  "int \<Rightarrow> int \<Rightarrow> int \<Rightarrow> storage \<Rightarrow> int \<Rightarrow> int \<Rightarrow> (error + (storage \<times> int \<times> int)) option" where
  [code]: "evictLoop currentCharsSize estimatedNewNodeSize cap st removedItems removedChars =
     (if currentCharsSize + estimatedNewNodeSize - removedChars > cap then
        (case removeHead st of
           Inl e \<Rightarrow> Some (Inl e)
         | Inr (removedItem, st') \<Rightarrow>
             evictLoop currentCharsSize estimatedNewNodeSize cap st' (removedItems + 1)
               (removedChars + (case removedItem of None \<Rightarrow> 0 | Some r \<Rightarrow> getNodeCharsSize r)))
      else Some (Inr (st, removedItems, removedChars)))"

text \<open>
  \<open>_checkCapacity\<close> in its two parts: the byte-capacity part with the loop, then the
  entry-count part (\<open>checkCount\<close>), which evicts at most once.
\<close>

definition checkCount :: "config \<Rightarrow> storage \<Rightarrow> error + storage" where
  "checkCount cfg st =
     (if getSize cfg st + 1 > capacity cfg then
        (case removeHead st of Inl e \<Rightarrow> Inl e | Inr (_, st') \<Rightarrow> Inr (decreaseSize cfg 1 st'))
      else Inr st)"

definition checkCapacity :: "config \<Rightarrow> node \<Rightarrow> storage \<Rightarrow> (error + storage) option" where
  "checkCapacity cfg newNode st =
     (case (case charsCapacity cfg of
              None \<Rightarrow> Some (Inr st)
            | Some cap \<Rightarrow>
                if cap > 0 then
                  (case evictLoop (getCharsSize cfg st)
                          (getNewNodeEstimatedSize (node_key newNode) (node_value newNode)) cap st 0 0 of
                     None \<Rightarrow> None
                   | Some (Inl e) \<Rightarrow> Some (Inl e)
                   | Some (Inr (st', removedItems, removedChars)) \<Rightarrow>
                       Some (Inr (decreaseCharsSize cfg removedChars (decreaseSize cfg removedItems st'))))
                else Some (Inr st)) of
        None \<Rightarrow> None
      | Some (Inl e) \<Rightarrow> Some (Inl e)
      | Some (Inr st1) \<Rightarrow> Some (checkCount cfg st1))"

definition addNewNode :: "config \<Rightarrow> string \<Rightarrow> jsval \<Rightarrow> storage \<Rightarrow> (error + storage) option" where
  "addNewNode cfg k v st =
     (let newNode = \<lparr>node_value = v, node_key = k, node_next = None, node_prev = None\<rparr> in
      if getSize cfg st = 0 then
        Some (Inr (increaseCharsSize cfg (getNewNodeEstimatedSize k v)
                     (increaseSize cfg (initialize newNode st))))
      else
        (case checkCapacity cfg newNode st of
           None \<Rightarrow> None
         | Some (Inl e) \<Rightarrow> Some (Inl e)
         | Some (Inr st1) \<Rightarrow>
             (case setTail newNode st1 of
                Inl e \<Rightarrow> Some (Inl e)
              | Inr st2 \<Rightarrow>
                  Some (Inr (increaseCharsSize cfg (getNewNodeEstimatedSize k v) (increaseSize cfg st2))))))"

definition lru_set :: "config \<Rightarrow> string \<Rightarrow> jsval \<Rightarrow> storage \<Rightarrow> (error + storage) option" where
  "lru_set cfg k v st =
     (case getNode k st of
        Inl e \<Rightarrow> Some (Inl e)
      | Inr (Some currentNode) \<Rightarrow>
          (case lru_get k (setNode k (currentNode\<lparr>node_value := v\<rparr>) st) of
             Inl e \<Rightarrow> Some (Inl e)
           | Inr (_, st') \<Rightarrow> Some (Inr st'))
      | Inr None \<Rightarrow> addNewNode cfg k v st)"

subsection \<open>Iteration\<close>

text \<open>
  A generator is modelled by what it yields when it is run to its end on an unchanged
  storage: the list of pairs \<open>[currentNode?.key, currentNode?.value]\<close>, and the error that
  ended it, if one did. A walk over a cycle of references never ends (\<open>None\<close>).
\<close>

type_synonym entry = "string option \<times> jsval"

definition entry_of :: "node option \<Rightarrow> entry" where
  "entry_of c = (case c of None \<Rightarrow> (None, JUndefined) | Some n \<Rightarrow> (Some (node_key n), node_value n))"

definition ref_of :: "(node \<Rightarrow> string option) \<Rightarrow> node option \<Rightarrow> string option" where
  "ref_of field c =
     (case c of
        None \<Rightarrow> None
      | Some n \<Rightarrow> (case field n of None \<Rightarrow> None | Some k \<Rightarrow> if k = [] then None else Some k))"

partial_function (option) walk ::
  "(node \<Rightarrow> string option) \<Rightarrow> storage \<Rightarrow> node option \<Rightarrow> (entry list \<times> error option) option" where
  [code]: "walk field st currentNode =
     (case ref_of field currentNode of
        None \<Rightarrow> Some ([], None)
      | Some k \<Rightarrow>
          (case getNode k st of
             Inl e \<Rightarrow> Some ([], Some e)
           | Inr c \<Rightarrow> Option.bind (walk field st c) (\<lambda>r. Some (entry_of c # fst r, snd r))))"

definition entries :: "storage \<Rightarrow> (entry list \<times> error option) option" where
  "entries st =
     (case getTail st of
        Inl e \<Rightarrow> Some ([], Some e)
      | Inr c \<Rightarrow> map_option (\<lambda>r. (entry_of c # fst r, snd r)) (walk node_next st c))"

definition reverseEntries :: "storage \<Rightarrow> (entry list \<times> error option) option" where
  "reverseEntries st =
     (case getHead st of
        Inl e \<Rightarrow> Some ([], Some e)
      | Inr c \<Rightarrow> map_option (\<lambda>r. (entry_of c # fst r, snd r)) (walk node_prev st c))"

section \<open>The memoization wrapper\<close>

text \<open>
  A property of the object passed to \<open>memoize\<close> is \<open>undefined\<close> (left out), \<open>null\<close>, a
  function, or some other value. Calling anything but a function throws a \<open>TypeError\<close>.
\<close>

datatype 'f jsfield = FUndefined | FNull | FOther | FFunction 'f

fun not_function :: "'f jsfield \<Rightarrow> bool" where
  "not_function (FFunction f) = False"
| "not_function FUndefined = True"
| "not_function FNull = True"
| "not_function FOther = True"

fun not_nullish :: "'f jsfield \<Rightarrow> bool" where
  "not_nullish FUndefined = False"
| "not_nullish FNull = False"
| "not_nullish FOther = True"
| "not_nullish (FFunction f) = True"

type_synonym args = "jsval list"

text \<open>A hook returns nothing; \<open>Some e\<close> is a hook that throws \<open>e\<close>.\<close>

type_synonym hook = "args \<Rightarrow> error option"

record logger =
  logger_cacheUsed :: "hook jsfield"
  logger_funcCalled :: "hook jsfield"
  logger_error :: "(error \<Rightarrow> hook) jsfield"

record 'c cache_obj =
  cache_get :: "(string \<Rightarrow> 'c \<Rightarrow> error + (jsval \<times> 'c)) jsfield"
  cache_set :: "(string \<Rightarrow> jsval \<Rightarrow> 'c \<Rightarrow> (error + 'c) option) jsfield"

record 'c memoize_arg =
  func :: "(args \<Rightarrow> error + jsval) jsfield"
  keyResolver :: "(args \<Rightarrow> error + string) jsfield"
  cache :: "'c cache_obj option"
  logger :: "logger option"

text \<open>
  What a run of the wrapper does to the world: the state of the cache, and the calls it
  made, in order.
\<close>

datatype event = CacheUsed args | FuncCalled args | LogError error args | Invoke args

record 'c world =
  cache_state :: 'c
  trace :: "event list"

definition emit :: "event \<Rightarrow> 'c world \<Rightarrow> 'c world" where
  "emit ev w = w\<lparr>trace := trace w @ [ev]\<rparr>"

definition not_a_function :: error where
  "not_a_function = TypeError ''is not a function''"

text \<open>The default of a destructured property: \<open>cacheUsed = () => {}\<close>.\<close>

fun or_default :: "'f \<Rightarrow> 'f jsfield \<Rightarrow> 'f jsfield" where
  "or_default d FUndefined = FFunction d"
| "or_default d FNull = FNull"
| "or_default d FOther = FOther"
| "or_default d (FFunction f) = FFunction f"

fun call_hook :: "hook jsfield \<Rightarrow> args \<Rightarrow> error option" where
  "call_hook (FFunction h) xs = h xs"
| "call_hook FUndefined xs = Some not_a_function"
| "call_hook FNull xs = Some not_a_function"
| "call_hook FOther xs = Some not_a_function"

fun call_error_hook :: "(error \<Rightarrow> hook) jsfield \<Rightarrow> error \<Rightarrow> args \<Rightarrow> error option" where
  "call_error_hook (FFunction h) e xs = h e xs"
| "call_error_hook FUndefined e xs = Some not_a_function"
| "call_error_hook FNull e xs = Some not_a_function"
| "call_error_hook FOther e xs = Some not_a_function"

fun call_func :: "(args \<Rightarrow> error + jsval) jsfield \<Rightarrow> args \<Rightarrow> error + jsval" where
  "call_func (FFunction f) xs = f xs"
| "call_func FUndefined xs = Inl not_a_function"
| "call_func FNull xs = Inl not_a_function"
| "call_func FOther xs = Inl not_a_function"

text \<open>\<open>JSON.stringify(args)\<close>: in an array \<open>undefined\<close> is written \<open>null\<close>.\<close>

definition json_args :: "args \<Rightarrow> string" where
  "json_args xs =
     CHR ''['' # join_fields (map (\<lambda>x. if x = JUndefined then ''null'' else json_value x) xs) @ [CHR '']'']"

text \<open>
  \<open>keyResolver ? keyResolver(...args) : generateKey(JSON.stringify(args))\<close>. The digest
  \<open>md5\<close> of the library is a parameter.
\<close>

fun derive_key :: "(string \<Rightarrow> string) \<Rightarrow> (args \<Rightarrow> error + string) jsfield \<Rightarrow> args \<Rightarrow> error + string" where
  "derive_key md5 (FFunction r) xs = r xs"
| "derive_key md5 FUndefined xs = Inr (md5 (json_args xs))"
| "derive_key md5 FNull xs = Inr (md5 (json_args xs))"
| "derive_key md5 FOther xs = Inl not_a_function"

definition call_cache_get :: "'c cache_obj option \<Rightarrow> string \<Rightarrow> 'c \<Rightarrow> error + (jsval \<times> 'c)" where
  "call_cache_get c k s =
     (case c of
        None \<Rightarrow> Inl (TypeError ''Cannot read properties of undefined'')
      | Some obj \<Rightarrow> (case cache_get obj of FFunction g \<Rightarrow> g k s | _ \<Rightarrow> Inl not_a_function))"

definition call_cache_set :: "'c cache_obj option \<Rightarrow> string \<Rightarrow> jsval \<Rightarrow> 'c \<Rightarrow> (error + 'c) option" where
  "call_cache_set c k v s =
     (case c of
        None \<Rightarrow> Some (Inl (TypeError ''Cannot read properties of undefined''))
      | Some obj \<Rightarrow> (case cache_set obj of FFunction g \<Rightarrow> g k v s | _ \<Rightarrow> Some (Inl not_a_function)))"

text \<open>
  How the \<open>try\<close> block ends: with its \<open>return\<close> (a cache hit), at its end with
  \<open>functionResult\<close> assigned, or in the \<open>catch\<close> with the error and the value
  \<open>functionResult\<close> had when it was thrown.
\<close>

datatype try_outcome = Returned jsval | Completed jsval | Caught error jsval

definition try_block ::
  "(string \<Rightarrow> string) \<Rightarrow> 'c memoize_arg \<Rightarrow> hook jsfield \<Rightarrow> hook jsfield \<Rightarrow> args \<Rightarrow> 'c world
     \<Rightarrow> (try_outcome \<times> 'c world) option" where
  "try_block md5 a cacheUsed funcCalled xs w =
     (case derive_key md5 (keyResolver a) xs of
        Inl e \<Rightarrow> Some (Caught e JUndefined, w)
      | Inr k \<Rightarrow>
          (case call_cache_get (cache a) k (cache_state w) of
             Inl e \<Rightarrow> Some (Caught e JUndefined, w)
           | Inr (valueFromCache, c1) \<Rightarrow>
               let w1 = w\<lparr>cache_state := c1\<rparr> in
               if truthy valueFromCache then
                 (case call_hook cacheUsed xs of
                    Some e \<Rightarrow> Some (Caught e JUndefined, emit (CacheUsed xs) w1)
                  | None \<Rightarrow> Some (Returned valueFromCache, emit (CacheUsed xs) w1))
               else
                 (case call_hook funcCalled xs of
                    Some e \<Rightarrow> Some (Caught e JUndefined, emit (FuncCalled xs) w1)
                  | None \<Rightarrow>
                      let w2 = emit (Invoke xs) (emit (FuncCalled xs) w1) in
                      (case call_func (func a) xs of
                         Inl e \<Rightarrow> Some (Caught e JUndefined, w2)
                       | Inr functionResult \<Rightarrow>
                           (case call_cache_set (cache a) k functionResult (cache_state w2) of
                              None \<Rightarrow> None
                            | Some (Inl e) \<Rightarrow> Some (Caught e functionResult, w2)
                            | Some (Inr c2) \<Rightarrow> Some (Completed functionResult, w2\<lparr>cache_state := c2\<rparr>))))))"

text \<open>The statements after the \<open>try\<close>.\<close>

definition after_try ::
  "'c memoize_arg \<Rightarrow> hook jsfield \<Rightarrow> args \<Rightarrow> jsval \<Rightarrow> 'c world \<Rightarrow> (error + jsval) \<times> 'c world" where
  "after_try a funcCalled xs functionResult w =
     (if truthy functionResult then (Inr functionResult, w)
      else
        (case call_hook funcCalled xs of
           Some e \<Rightarrow> (Inl e, emit (FuncCalled xs) w)
         | None \<Rightarrow> (call_func (func a) xs, emit (Invoke xs) (emit (FuncCalled xs) w))))"

definition memoized ::
  "(string \<Rightarrow> string) \<Rightarrow> 'c memoize_arg \<Rightarrow> hook jsfield \<Rightarrow> hook jsfield \<Rightarrow> (error \<Rightarrow> hook) jsfield
     \<Rightarrow> args \<Rightarrow> 'c world \<Rightarrow> ((error + jsval) \<times> 'c world) option" where
  "memoized md5 a cacheUsed funcCalled logError xs w =
     (case try_block md5 a cacheUsed funcCalled xs w of
        None \<Rightarrow> None
      | Some (Returned v, w1) \<Rightarrow> Some (Inr v, w1)
      | Some (Completed r, w1) \<Rightarrow> Some (after_try a funcCalled xs r w1)
      | Some (Caught e r, w1) \<Rightarrow>
          (case call_error_hook logError e xs of
             Some e' \<Rightarrow> Some (Inl e', emit (LogError e xs) w1)
           | None \<Rightarrow> Some (after_try a funcCalled xs r (emit (LogError e xs) w1))))"

definition no_logger :: logger where
  "no_logger = \<lparr>logger_cacheUsed = FUndefined, logger_funcCalled = FUndefined, logger_error = FUndefined\<rparr>"

definition memoize ::
  "(string \<Rightarrow> string) \<Rightarrow> 'c memoize_arg
     \<Rightarrow> error + (args \<Rightarrow> 'c world \<Rightarrow> ((error + jsval) \<times> 'c world) option)" where
  "memoize md5 a =
     (let lg = (case logger a of None \<Rightarrow> no_logger | Some l \<Rightarrow> l);
          cacheUsed = or_default (\<lambda>xs. None) (logger_cacheUsed lg);
          funcCalled = or_default (\<lambda>xs. None) (logger_funcCalled lg);
          logError = or_default (\<lambda>e xs. None) (logger_error lg)
      in
      if not_function (func a) \<or> (not_nullish (keyResolver a) \<and> not_function (keyResolver a)) then
        Inl (TypeError ''Expected a function'')
      else if (case cache a of
                 None \<Rightarrow> False
               | Some c \<Rightarrow> not_function (cache_get c) \<or> not_function (cache_set c)) then
        Inl (TypeError ''Expected cache'')
      else if logger a = None \<or> not_function cacheUsed \<or> not_function funcCalled \<or> not_function logError then
        Inl (TypeError ''Expected logger.cacheUsed, logger.funcCalled and logger.error must be functions'')
      else Inr (memoized md5 a cacheUsed funcCalled logError))"

section \<open>Runs of the cache\<close>

datatype op = Set string jsval | Get string

text \<open>A run stops at the first operation that throws, and never ends if one never returns.\<close>

fun run :: "config \<Rightarrow> op list \<Rightarrow> storage \<Rightarrow> (error + storage) option" where
  "run cfg [] st = Some (Inr st)"
| "run cfg (Set k v # ops) st =
     (case lru_set cfg k v st of
        None \<Rightarrow> None
      | Some (Inl e) \<Rightarrow> Some (Inl e)
      | Some (Inr st') \<Rightarrow> run cfg ops st')"
| "run cfg (Get k # ops) st =
     (case lru_get k st of
        Inl e \<Rightarrow> Some (Inl e)
      | Inr (_, st') \<Rightarrow> run cfg ops st')"

text \<open>The traversal from the most recent entry after a run on a new, empty storage.\<close>

definition traversal :: "config \<Rightarrow> op list \<Rightarrow> (entry list \<times> error option) option" where
  "traversal cfg ops = (case run cfg ops Map.empty of Some (Inr st) \<Rightarrow> entries st | _ \<Rightarrow> None)"

definition lookup_after :: "config \<Rightarrow> op list \<Rightarrow> string \<Rightarrow> (error + node option) option" where
  "lookup_after cfg ops k =
     (case run cfg ops Map.empty of Some (Inr st) \<Rightarrow> Some (getNode k st) | _ \<Rightarrow> None)"

definition scenario_config :: config where
  "scenario_config = \<lparr>capacity = 3, charsCapacity = None, promises = False\<rparr>"

definition first_three :: "op list" where
  "first_three = [Set ''1'' (JStr ''a''), Set ''2'' (JStr ''b''), Set ''3'' (JStr ''c'')]"

text \<open>The function of the repository's demonstration, \<open>(arg1, arg2) => arg1 + arg2\<close>.\<close>

definition add_two :: "args \<Rightarrow> error + jsval" where
  "add_two xs =
     (case xs of [JNum a, JNum b] \<Rightarrow> Inr (JNum (a + b)) | _ \<Rightarrow> Inl (Raised ''expected two numbers''))"

definition lru_cache_obj :: "config \<Rightarrow> storage cache_obj" where
  "lru_cache_obj cfg = \<lparr>cache_get = FFunction lru_get, cache_set = FFunction (lru_set cfg)\<rparr>"

definition zero_call :: "storage memoize_arg" where
  "zero_call = \<lparr>func = FFunction add_two, keyResolver = FUndefined,
                 cache = Some (lru_cache_obj scenario_config), logger = Some no_logger\<rparr>"

section \<open>The list a storage holds\<close>

text \<open>
  The entries of a cache from the most to the least recently used, and the storage that
  holds exactly them: one record per entry, linked to its neighbours, the two anchors
  and the two counters.
\<close>

type_synonym lru_list = "(string \<times> jsval) list"

fun next_key :: "lru_list \<Rightarrow> string option" where
  "next_key [] = None"
| "next_key (e # es) = Some (fst e)"

fun nodes :: "string option \<Rightarrow> lru_list \<Rightarrow> storage" where
  "nodes p [] k = None"
| "nodes p (e # es) k =
     (if k = fst e then
        Some (NodeCell \<lparr>node_value = snd e, node_key = fst e, node_next = next_key es, node_prev = p\<rparr>)
      else nodes (Some (fst e)) es k)"

definition lru_state :: "lru_list \<Rightarrow> int \<Rightarrow> int \<Rightarrow> storage" where
  "lru_state xs sz ch k =
     (if k = tailKeyPointer then Some (Text (fst (hd xs)))
      else if k = headKeyPointer then Some (Text (fst (last xs)))
      else if k = sizeKey then Some (Text (string_of_int sz))
      else if k = charsSizeKey then Some (Text (string_of_int ch))
      else nodes None xs k)"

definition reserved :: "string \<Rightarrow> bool" where
  "reserved k = (k = tailKeyPointer \<or> k = headKeyPointer \<or> k = sizeKey \<or> k = charsSizeKey)"

definition valid_key :: "string \<Rightarrow> bool" where
  "valid_key k = (k \<noteq> [] \<and> \<not> reserved k)"

definition wf_list :: "lru_list \<Rightarrow> bool" where
  "wf_list xs = (xs \<noteq> [] \<and> distinct (map fst xs) \<and> list_all valid_key (map fst xs))"

definition promote :: "string \<Rightarrow> lru_list \<Rightarrow> lru_list" where
  "promote k xs = (case map_of xs k of None \<Rightarrow> xs | Some v \<Rightarrow> (k, v) # filter (\<lambda>e. fst e \<noteq> k) xs)"

definition entry_list :: "lru_list \<Rightarrow> entry list" where
  "entry_list xs = map (\<lambda>e. (Some (fst e), snd e)) xs"

definition anchors :: "storage \<Rightarrow> string option \<times> string option" where
  "anchors st = (storage_get st tailKeyPointer, storage_get st headKeyPointer)"

text \<open>The storage after \<open>set("1","a")\<close> on a new cache.\<close>

definition one_entry :: storage where
  "one_entry = lru_state [(''1'', JStr ''a'')] 1 337"

text \<open>
  A storage that was changed from outside: the list of keys 1 and 2, without the record
  of key 1. The tail anchor and the reference of key 2 name a key that has no record.
\<close>

definition orphaned :: storage where
  "orphaned = (lru_state [(''1'', JStr ''a''), (''2'', JStr ''b'')] 2 383)(''1'' := None)"

definition one_slot :: config where
  "one_slot = \<lparr>capacity = 1, charsCapacity = None, promises = False\<rparr>"

text \<open>The configuration and the value of the byte-capacity scenario.\<close>

definition small_bytes :: config where
  "small_bytes = \<lparr>capacity = 100, charsCapacity = Some 50, promises = False\<rparr>"

definition large_value :: jsval where
  "large_value = JStr ''01234567890123456789''"

text \<open>The sum of the size estimates of the entries of a list, and of the pairs a traversal yields.\<close>

definition estimate_sum :: "lru_list \<Rightarrow> int" where
  "estimate_sum xs = sum_list (map (\<lambda>e. getNewNodeEstimatedSize (fst e) (snd e)) xs)"

definition estimates :: "entry list \<Rightarrow> int" where
  "estimates es =
     sum_list (map (\<lambda>e. case fst e of None \<Rightarrow> 0 | Some k \<Rightarrow> getNewNodeEstimatedSize k (snd e)) es)"

text \<open>
  A run that never evicts and never replaces a value: every \<open>set\<close> is of a key that is not
  in the list, and but for the first it fits the entry capacity and the byte capacity
  \<open>cap\<close>. The list \<open>xs\<close> is the content of the cache before the run.
\<close>

fun fits :: "config \<Rightarrow> int \<Rightarrow> lru_list \<Rightarrow> op list \<Rightarrow> bool" where
  "fits cfg cap xs [] = True"
| "fits cfg cap xs (Get k # ops) = (valid_key k \<and> fits cfg cap (promote k xs) ops)"
| "fits cfg cap xs (Set k v # ops) =
     (valid_key k \<and> k \<notin> fst ` set xs
      \<and> (xs = [] \<or> (int (length xs) + 1 \<le> capacity cfg
                    \<and> getMetadataEstimatedCharsSize + estimate_sum xs + getNewNodeEstimatedSize k v \<le> cap))
      \<and> fits cfg cap ((k, v) # xs) ops)"

text \<open>The storage that holds the list \<open>xs\<close> with exact counters; the empty list is a new storage.\<close>

definition accounted :: "lru_list \<Rightarrow> storage" where
  "accounted xs =
     (if xs = [] then Map.empty
      else lru_state xs (int (length xs)) (getMetadataEstimatedCharsSize + estimate_sum xs))"

text \<open>
  The reference model of the cache: the list of its entries from the most to the least
  recently used. A \<open>get\<close> of a present key and a \<open>set\<close> move the key to the front; a \<open>set\<close> of
  a new key on a full list drops the last entry.
\<close>

fun lru_model :: "config \<Rightarrow> lru_list \<Rightarrow> op list \<Rightarrow> lru_list" where
  "lru_model cfg xs [] = xs"
| "lru_model cfg xs (Get k # ops) = lru_model cfg (promote k xs) ops"
| "lru_model cfg xs (Set k v # ops) =
     lru_model cfg
       (if k \<in> fst ` set xs then (k, v) # filter (\<lambda>e. fst e \<noteq> k) xs
        else if int (length xs) + 1 > capacity cfg then (k, v) # butlast xs
        else (k, v) # xs) ops"

fun op_key :: "op \<Rightarrow> string" where
  "op_key (Set k v) = k"
| "op_key (Get k) = k"

text \<open>The storage that holds the list \<open>xs\<close> with its length as the count; the empty list is a new storage.\<close>

definition counted :: "lru_list \<Rightarrow> int \<Rightarrow> storage" where
  "counted xs ch = (if xs = [] then Map.empty else lru_state xs (int (length xs)) ch)"

definition byte_config :: config where
  "byte_config = \<lparr>capacity = 100, charsCapacity = Some 1000, promises = False\<rparr>"

text \<open>
  The storage after \<open>set("1","a"); set("2","b")\<close> with capacity 1: no record is left, and both
  anchors name key 1.
\<close>

definition emptied :: storage where
  "emptied = (lru_state [(''1'', JStr ''a'')] 1 383)(''1'' := None)"

text \<open>The configuration of the first scenario, on a storage whose methods return promises.\<close>

definition promise_config :: config where
  "promise_config = \<lparr>capacity = 3, charsCapacity = None, promises = True\<rparr>"

text \<open>
  A storage that only the engine wrote, and from which records may have been deleted:
  under a reserved key there is a text or nothing, under any other key a node record or
  nothing, and no anchor and no reference of a node names a reserved key. References and
  anchors may name keys that have no record.
\<close>

definition ok_ref :: "string option \<Rightarrow> bool" where
  "ok_ref r = (case r of None \<Rightarrow> True | Some k \<Rightarrow> \<not> reserved k)"

definition ok_node :: "node \<Rightarrow> bool" where
  "ok_node n = (\<not> reserved (node_key n) \<and> ok_ref (node_next n) \<and> ok_ref (node_prev n))"

definition ok_cell :: "string \<Rightarrow> cell \<Rightarrow> bool" where
  "ok_cell k c =
     (case c of
        NodeCell n \<Rightarrow> \<not> reserved k \<and> ok_node n
      | Text s \<Rightarrow> reserved k \<and> ((k = tailKeyPointer \<or> k = headKeyPointer) \<longrightarrow> \<not> reserved s))"

definition engine_written :: "storage \<Rightarrow> bool" where
  "engine_written st = (\<forall>k. case st k of None \<Rightarrow> True | Some c \<Rightarrow> ok_cell k c)"

section \<open>Lemmas\<close>

subsection \<open>Numbers and reserved keys\<close>

lemma of_char_digit_char: "d < 10 \<Longrightarrow> (of_char (digit_char d) :: nat) = 48 + d"
  by (simp add: digit_char_def)

lemma is_digit_digit_char: "d < 10 \<Longrightarrow> is_digit (digit_char d)"
  by (simp add: is_digit_def of_char_digit_char)

lemma nat_of_digits_snoc: "nat_of_digits (s @ [c]) = 10 * nat_of_digits s + ((of_char c :: nat) - 48)"
  by (simp add: nat_of_digits_def)

lemma string_of_nat_digits:
  "list_all is_digit (string_of_nat n) \<and> string_of_nat n \<noteq> [] \<and> nat_of_digits (string_of_nat n) = n"
proof (induction n rule: string_of_nat.induct)
  case (1 n)
  show ?case
  proof (cases "n < 10")
    case True
    then show ?thesis
      by (subst (1 2 3) string_of_nat.simps) (simp add: is_digit_digit_char nat_of_digits_def of_char_digit_char)
  next
    case False
    with 1 have ih: "list_all is_digit (string_of_nat (n div 10))"
      "nat_of_digits (string_of_nat (n div 10)) = n div 10" by auto
    have m: "n mod 10 < 10" by simp
    from False ih m show ?thesis
      by (subst (1 2 3) string_of_nat.simps)
         (simp add: is_digit_digit_char nat_of_digits_snoc of_char_digit_char)
  qed
qed

lemma digit_not_sign: "is_digit c \<Longrightarrow> c \<noteq> CHR ''-'' \<and> c \<noteq> CHR ''+''"
  by (auto simp: is_digit_def)

lemma Number_string_of_int: "Number (string_of_int i) = Some i"
proof (cases "i < 0")
  case True
  then show ?thesis
    using string_of_nat_digits [of "nat (- i)"]
    by (simp add: Number_def string_of_int_def)
next
  case False
  obtain c cs where s: "string_of_nat (nat i) = c # cs"
    using string_of_nat_digits [of "nat i"] by (cases "string_of_nat (nat i)") auto
  have d: "list_all is_digit (c # cs)" "nat_of_digits (c # cs) = nat i"
    using string_of_nat_digits [of "nat i"] s by auto
  then have "is_digit c" by simp
  then have "c \<noteq> CHR ''-''" "c \<noteq> CHR ''+''" using digit_not_sign by auto
  with False d s show ?thesis
    by (simp add: Number_def string_of_int_def)
qed

lemma reserved_distinct:
  "tailKeyPointer \<noteq> headKeyPointer" "tailKeyPointer \<noteq> sizeKey" "tailKeyPointer \<noteq> charsSizeKey"
  "headKeyPointer \<noteq> sizeKey" "headKeyPointer \<noteq> charsSizeKey" "sizeKey \<noteq> charsSizeKey"
  "headKeyPointer \<noteq> tailKeyPointer" "sizeKey \<noteq> tailKeyPointer" "charsSizeKey \<noteq> tailKeyPointer"
  "sizeKey \<noteq> headKeyPointer" "charsSizeKey \<noteq> headKeyPointer" "charsSizeKey \<noteq> sizeKey"
  by (simp_all add: tailKeyPointer_def headKeyPointer_def sizeKey_def charsSizeKey_def)

subsection \<open>Reading a storage that holds a list\<close>

lemma nodes_notin: "k \<notin> fst ` set xs \<Longrightarrow> nodes p xs k = None"
  by (induction xs arbitrary: p) auto

lemma state_reads:
  "lru_state xs sz ch tailKeyPointer = Some (Text (fst (hd xs)))"
  "lru_state xs sz ch headKeyPointer = Some (Text (fst (last xs)))"
  "lru_state xs sz ch sizeKey = Some (Text (string_of_int sz))"
  "lru_state xs sz ch charsSizeKey = Some (Text (string_of_int ch))"
  by (simp_all add: lru_state_def reserved_distinct)

lemma state_node: "\<not> reserved k \<Longrightarrow> lru_state xs sz ch k = nodes None xs k"
  by (simp add: lru_state_def reserved_def)

lemma getSize_state: "\<not> promises cfg \<Longrightarrow> getSize cfg (lru_state xs sz ch) = sz"
  by (simp add: getSize_def storage_get_def state_reads number_or_zero_def Number_string_of_int)

lemma getCharsSize_state: "\<not> promises cfg \<Longrightarrow> getCharsSize cfg (lru_state xs sz ch) = ch"
  by (simp add: getCharsSize_def storage_get_def state_reads number_or_zero_def Number_string_of_int)

lemma valid_keyD:
  "valid_key k \<Longrightarrow> k \<noteq> [] \<and> k \<noteq> tailKeyPointer \<and> k \<noteq> headKeyPointer \<and> k \<noteq> sizeKey \<and> k \<noteq> charsSizeKey"
  by (auto simp: valid_key_def reserved_def)

lemma nodes_in: "k \<in> fst ` set xs \<Longrightarrow> \<exists>n. nodes p xs k = Some (NodeCell n) \<and> node_key n = k"
  by (induction xs arbitrary: p) auto

lemma nodes_split:
  "fst e \<notin> fst ` set ys \<Longrightarrow>
   nodes p (ys @ e # zs) (fst e) =
     Some (NodeCell \<lparr>node_value = snd e, node_key = fst e, node_next = next_key zs,
                      node_prev = (if ys = [] then p else Some (fst (last ys)))\<rparr>)"
proof (induction ys arbitrary: p)
  case Nil
  then show ?case by simp
next
  case (Cons a as)
  then have "fst e \<noteq> fst a" "fst e \<notin> fst ` set as" by auto
  with Cons.IH [of "Some (fst a)"] show ?case by (cases as) auto
qed

lemma getNode_state:
  "valid_key k \<Longrightarrow> getNode k (lru_state xs sz ch) =
     (case nodes None xs k of None \<Rightarrow> Inr None | Some (NodeCell n) \<Rightarrow> Inr (Some n) | Some (Text s) \<Rightarrow> Inl CorruptRecord)"
  using nodes_in [of k xs None] nodes_notin [of k xs None]
  by (cases "k \<in> fst ` set xs") (auto simp: getNode_def state_node valid_key_def)

lemma getNode_absent:
  "valid_key k \<Longrightarrow> k \<notin> fst ` set xs \<Longrightarrow> getNode k (lru_state xs sz ch) = Inr None"
  by (simp add: getNode_state nodes_notin)

lemma getNode_present:
  "valid_key (fst e) \<Longrightarrow> fst e \<notin> fst ` set ys \<Longrightarrow>
   getNode (fst e) (lru_state (ys @ e # zs) sz ch) =
     Inr (Some \<lparr>node_value = snd e, node_key = fst e, node_next = next_key zs,
                 node_prev = (if ys = [] then None else Some (fst (last ys)))\<rparr>)"
  by (simp add: getNode_state nodes_split)

lemma wf_hd: "wf_list xs \<Longrightarrow> valid_key (fst (hd xs)) \<and> valid_key (fst (last xs))"
  by (cases xs) (auto simp: wf_list_def list_all_iff)

lemma getTail_state:
  "wf_list (e # es) \<Longrightarrow> getTail (lru_state (e # es) sz ch) =
     Inr (Some \<lparr>node_value = snd e, node_key = fst e, node_next = next_key es, node_prev = None\<rparr>)"
  using getNode_present [of e "[]" es sz ch]
  by (auto simp: getTail_def storage_get_def state_reads wf_list_def valid_key_def)

lemma getHead_state:
  "wf_list (ys @ [e]) \<Longrightarrow> getHead (lru_state (ys @ [e]) sz ch) =
     Inr (Some \<lparr>node_value = snd e, node_key = fst e, node_next = None,
                 node_prev = (if ys = [] then None else Some (fst (last ys)))\<rparr>)"
  using getNode_present [of e ys "[]" sz ch]
  by (auto simp: getHead_def storage_get_def state_reads wf_list_def valid_key_def)

subsection \<open>Linking, eviction and unlinking\<close>

text \<open>
  Each step of the engine, run on the storage of a list, gives the storage of the list
  after the step.
\<close>

lemma setTail_state:
  assumes "wf_list w" "valid_key k" "k \<notin> fst ` set w"
  shows "setTail \<lparr>node_value = v, node_key = k, node_next = nx, node_prev = pv\<rparr> ((lru_state w sz ch)(k := c))
           = Inr (lru_state ((k, v) # w) sz ch)"
proof -
  from assms(1) obtain e es where w: "w = e # es" by (cases w) (auto simp: wf_list_def)
  have ke: "fst e \<noteq> k" using assms(3) w by auto
  have vk: "k \<noteq> tailKeyPointer" "k \<noteq> headKeyPointer" "k \<noteq> sizeKey" "k \<noteq> charsSizeKey" "k \<noteq> []"
    using valid_keyD [OF assms(2)] by auto
  have ve: "fst e \<noteq> tailKeyPointer" "fst e \<noteq> headKeyPointer" "fst e \<noteq> sizeKey" "fst e \<noteq> charsSizeKey" "fst e \<noteq> []"
    using valid_keyD [of "fst e"] wf_hd [OF assms(1)] w by auto
  have t: "getTail ((lru_state (e # es) sz ch)(k := c)) = getTail (lru_state (e # es) sz ch)"
    using ke vk by (simp add: getTail_def storage_get_def getNode_def state_reads)
  have "setTail \<lparr>node_value = v, node_key = k, node_next = nx, node_prev = pv\<rparr> ((lru_state w sz ch)(k := c)) = Inr
     (((lru_state w sz ch)(k := c))
       (fst e \<mapsto> NodeCell \<lparr>node_value = snd e, node_key = fst e, node_next = next_key es, node_prev = Some k\<rparr>,
        k \<mapsto> NodeCell \<lparr>node_value = v, node_key = k, node_next = Some (fst e), node_prev = None\<rparr>,
        tailKeyPointer \<mapsto> Text k))"
    using assms(1) ke unfolding w by (simp add: setTail_def t getTail_state setNode_def)
  moreover have "((lru_state w sz ch)(k := c))
       (fst e \<mapsto> NodeCell \<lparr>node_value = snd e, node_key = fst e, node_next = next_key es, node_prev = Some k\<rparr>,
        k \<mapsto> NodeCell \<lparr>node_value = v, node_key = k, node_next = Some (fst e), node_prev = None\<rparr>,
        tailKeyPointer \<mapsto> Text k) = lru_state ((k, v) # w) sz ch"
    using ke vk ve by (auto simp: lru_state_def w fun_eq_iff)
  ultimately show ?thesis by simp
qed

lemma nodes_append_left:
  "x \<in> fst ` set ys \<Longrightarrow> x \<noteq> fst (last ys) \<Longrightarrow> nodes p (ys @ zs) x = nodes p ys x"
proof (induction ys arbitrary: p)
  case Nil
  then show ?case by simp
next
  case (Cons a as)
  show ?case
  proof (cases as)
    case Nil
    with Cons.prems show ?thesis by simp
  next
    case (Cons b bs)
    show ?thesis
    proof (cases "x = fst a")
      case True
      then show ?thesis using Cons by simp
    next
      case False
      with Cons.prems have "x \<in> fst ` set as" "x \<noteq> fst (last as)" using Cons by auto
      then have "nodes (Some (fst a)) (as @ zs) x = nodes (Some (fst a)) as x"
        by (rule Cons.IH)
      with False show ?thesis by simp
    qed
  qed
qed

lemma nodes_append_right:
  "x \<notin> fst ` set ys \<Longrightarrow> nodes p (ys @ zs) x = nodes (if ys = [] then p else Some (fst (last ys))) zs x"
  by (induction ys arbitrary: p) auto

lemma nodes_append_last:
  assumes "fst y \<notin> fst ` set ys"
  shows "nodes p ((ys @ [y]) @ zs) (fst y) =
     Some (NodeCell \<lparr>node_value = snd y, node_key = fst y, node_next = next_key zs,
                      node_prev = (if ys = [] then p else Some (fst (last ys)))\<rparr>)"
proof -
  have "nodes p (ys @ y # zs) (fst y) =
     Some (NodeCell \<lparr>node_value = snd y, node_key = fst y, node_next = next_key zs,
                      node_prev = (if ys = [] then p else Some (fst (last ys)))\<rparr>)"
    using assms by (rule nodes_split)
  then show ?thesis by simp
qed

lemma removeHead_state:
  assumes "wf_list (ys @ [y, e])"
  shows "removeHead (lru_state (ys @ [y, e]) sz ch) =
           Inr (Some \<lparr>node_value = snd e, node_key = fst e, node_next = None, node_prev = Some (fst y)\<rparr>,
                lru_state (ys @ [y]) sz ch)"
proof -
  have d: "distinct (map fst (ys @ [y, e]))" and vy: "valid_key (fst y)" and ve: "valid_key (fst e)"
    using assms by (auto simp: wf_list_def)
  have h: "getHead (lru_state (ys @ [y, e]) sz ch) =
     Inr (Some \<lparr>node_value = snd e, node_key = fst e, node_next = None, node_prev = Some (fst y)\<rparr>)"
    using getHead_state [of "ys @ [y]" e sz ch] assms by simp
  have g: "getNode (fst y) (lru_state (ys @ [y, e]) sz ch) =
     Inr (Some \<lparr>node_value = snd y, node_key = fst y, node_next = Some (fst e),
                 node_prev = (if ys = [] then None else Some (fst (last ys)))\<rparr>)"
    using getNode_present [of y ys "[e]" sz ch] vy d by auto
  have ny: "fst y \<noteq> []" "fst e \<noteq> []" using vy ve by (auto simp: valid_key_def)
  have eq: "((lru_state (ys @ [y, e]) sz ch)
        (fst y \<mapsto> NodeCell \<lparr>node_value = snd y, node_key = fst y, node_next = None,
                   node_prev = (if ys = [] then None else Some (fst (last ys)))\<rparr>,
         headKeyPointer \<mapsto> Text (fst y)))(fst e := None) = lru_state (ys @ [y]) sz ch"
  proof (rule ext)
    fix x
    have ky: "fst y \<noteq> fst e" using d by auto
    have nin: "fst y \<notin> fst ` set ys" "fst e \<notin> fst ` set ys" using d by auto
    have a: "nodes None (ys @ [y]) (fst y) = Some (NodeCell \<lparr>node_value = snd y, node_key = fst y, node_next = None,
                   node_prev = (if ys = [] then None else Some (fst (last ys)))\<rparr>)"
      using nodes_append_last [of y ys None "[]"] d by auto
    have b: "x \<in> fst ` set ys \<Longrightarrow> nodes None (ys @ [y, e]) x = nodes None (ys @ [y]) x"
    proof -
      assume xin: "x \<in> fst ` set ys"
      then have "x \<noteq> fst y" using nin by blast
      then have "nodes None ((ys @ [y]) @ [e]) x = nodes None (ys @ [y]) x"
        using xin by (intro nodes_append_left) auto
      then show ?thesis by simp
    qed
    have c: "x \<notin> fst ` set ys \<Longrightarrow> x \<noteq> fst y \<Longrightarrow> x \<noteq> fst e \<Longrightarrow>
         nodes None (ys @ [y, e]) x = None \<and> nodes None (ys @ [y]) x = None"
      by (simp add: nodes_notin)
    from nin have i: "x \<in> fst ` set ys \<Longrightarrow> x \<noteq> fst y \<and> x \<noteq> fst e" by blast
    have hd: "hd (ys @ [y, e]) = hd (ys @ [y])" by (cases ys) auto
    have e0: "nodes None (ys @ [y]) (fst e) = None" using nin ky by (intro nodes_notin) auto
    show "(((lru_state (ys @ [y, e]) sz ch)
        (fst y \<mapsto> NodeCell \<lparr>node_value = snd y, node_key = fst y, node_next = None,
                   node_prev = (if ys = [] then None else Some (fst (last ys)))\<rparr>,
         headKeyPointer \<mapsto> Text (fst y)))(fst e := None)) x = lru_state (ys @ [y]) sz ch x"
    proof (cases "x \<in> fst ` set ys")
      case True
      with i b valid_keyD [OF vy] valid_keyD [OF ve] show ?thesis
        by (auto simp: lru_state_def reserved_distinct hd)
    next
      case False
      with a c e0 ky valid_keyD [OF vy] valid_keyD [OF ve] show ?thesis
        by (auto simp: lru_state_def reserved_distinct hd)
    qed
  qed
  show ?thesis
    using ny eq by (simp add: removeHead_def h g setNode_def)
qed

lemma nodes_after:
  "x \<notin> fst ` set ys \<Longrightarrow> x \<noteq> fst z \<Longrightarrow> nodes p (ys @ z # zs) x = nodes (Some (fst z)) zs x"
  by (simp add: nodes_append_right)

lemma nodes_before:
  assumes "x \<in> fst ` set ys" "x \<noteq> fst y"
  shows "nodes p (ys @ y # zs) x = nodes p (ys @ [y]) x"
proof -
  have "nodes p ((ys @ [y]) @ zs) x = nodes p (ys @ [y]) x"
    using assms by (intro nodes_append_left) auto
  then show ?thesis by simp
qed

text \<open>Unlinking the entry \<open>e\<close> that follows \<open>y\<close>: the state of the list without \<open>e\<close>, but for the record of \<open>e\<close>.\<close>

lemma unlink_state:
  assumes wf: "wf_list (ys @ y # e # zs)"
  shows "(case next_key zs of
            None \<Rightarrow> ((lru_state (ys @ y # e # zs) sz ch)
                      (fst y \<mapsto> NodeCell \<lparr>node_value = snd y, node_key = fst y, node_next = None,
                                  node_prev = (if ys = [] then None else Some (fst (last ys)))\<rparr>))
                      (headKeyPointer \<mapsto> Text (fst y))
          | Some kz \<Rightarrow> (lru_state (ys @ y # e # zs) sz ch)
                      (fst y \<mapsto> NodeCell \<lparr>node_value = snd y, node_key = fst y, node_next = Some kz,
                                  node_prev = (if ys = [] then None else Some (fst (last ys)))\<rparr>,
                       kz \<mapsto> NodeCell \<lparr>node_value = snd (hd zs), node_key = kz, node_next = next_key (tl zs),
                                  node_prev = Some (fst y)\<rparr>))
         = (lru_state (ys @ y # zs) sz ch)
             (fst e \<mapsto> NodeCell \<lparr>node_value = snd e, node_key = fst e, node_next = next_key zs,
                         node_prev = Some (fst y)\<rparr>)"
proof (rule ext)
  fix x
  have d: "distinct (map fst (ys @ y # e # zs))" using wf by (simp add: wf_list_def)
  have vy: "valid_key (fst y)" and ve: "valid_key (fst e)" using wf by (auto simp: wf_list_def)
  note ky = valid_keyD [OF vy] and ke = valid_keyD [OF ve]
  have nin: "fst y \<notin> fst ` set ys" "fst e \<notin> fst ` set ys" "fst y \<noteq> fst e"
    "fst y \<notin> fst ` set zs" "fst e \<notin> fst ` set zs"
    using d by auto
  have hd: "hd (ys @ y # e # zs) = hd (ys @ [y])" "hd (ys @ y # zs) = hd (ys @ [y])" by (cases ys; simp)+
  have ny: "nodes None (ys @ y # zs) (fst y) =
      Some (NodeCell \<lparr>node_value = snd y, node_key = fst y, node_next = next_key zs,
                       node_prev = (if ys = [] then None else Some (fst (last ys)))\<rparr>)"
    using nin by (intro nodes_split) auto
  have ne: "nodes None (ys @ y # e # zs) (fst e) =
      Some (NodeCell \<lparr>node_value = snd e, node_key = fst e, node_next = next_key zs, node_prev = Some (fst y)\<rparr>)"
    using nodes_split [of e "ys @ [y]" None zs] nin by simp
  have before: "x \<in> fst ` set ys \<Longrightarrow> nodes None (ys @ y # e # zs) x = nodes None (ys @ y # zs) x
       \<and> x \<noteq> fst y \<and> x \<noteq> fst e \<and> x \<notin> fst ` set zs"
  proof -
    assume xin: "x \<in> fst ` set ys"
    then have xy: "x \<noteq> fst y" "x \<noteq> fst e" using nin by blast+
    have xz: "x \<notin> fst ` set zs" using d xin by auto
    from xin xy have "nodes None (ys @ y # e # zs) x = nodes None (ys @ [y]) x"
      "nodes None (ys @ y # zs) x = nodes None (ys @ [y]) x"
      by (auto intro: nodes_before)
    with xy xz show ?thesis by simp
  qed
  show "(case next_key zs of
            None \<Rightarrow> ((lru_state (ys @ y # e # zs) sz ch)
                      (fst y \<mapsto> NodeCell \<lparr>node_value = snd y, node_key = fst y, node_next = None,
                                  node_prev = (if ys = [] then None else Some (fst (last ys)))\<rparr>))
                      (headKeyPointer \<mapsto> Text (fst y))
          | Some kz \<Rightarrow> (lru_state (ys @ y # e # zs) sz ch)
                      (fst y \<mapsto> NodeCell \<lparr>node_value = snd y, node_key = fst y, node_next = Some kz,
                                  node_prev = (if ys = [] then None else Some (fst (last ys)))\<rparr>,
                       kz \<mapsto> NodeCell \<lparr>node_value = snd (hd zs), node_key = kz, node_next = next_key (tl zs),
                                  node_prev = Some (fst y)\<rparr>)) x
         = ((lru_state (ys @ y # zs) sz ch)
             (fst e \<mapsto> NodeCell \<lparr>node_value = snd e, node_key = fst e, node_next = next_key zs,
                         node_prev = Some (fst y)\<rparr>)) x"
  proof (cases zs)
    case Nil
    have after: "x \<notin> fst ` set ys \<Longrightarrow> x \<noteq> fst y \<Longrightarrow> x \<noteq> fst e \<Longrightarrow>
        nodes None (ys @ [y, e]) x = None \<and> nodes None (ys @ [y]) x = None"
      by (simp add: nodes_notin)
    show ?thesis
    proof (cases "x \<in> fst ` set ys")
      case True
      with before ky ke hd Nil show ?thesis
        by (auto simp: lru_state_def reserved_distinct)
    next
      case False
      with after ny ne ky ke nin hd Nil show ?thesis
        by (auto simp: lru_state_def reserved_distinct)
    qed
  next
    case (Cons z zs')
    have vz: "valid_key (fst z)" using wf Cons by (auto simp: wf_list_def)
    note kz = valid_keyD [OF vz]
    have zn: "fst z \<noteq> fst y" "fst z \<noteq> fst e" "fst z \<notin> fst ` set ys" using d Cons by auto
    have nz: "nodes None (ys @ y # z # zs') (fst z) =
        Some (NodeCell \<lparr>node_value = snd z, node_key = fst z, node_next = next_key zs', node_prev = Some (fst y)\<rparr>)"
      using nodes_split [of z "ys @ [y]" None zs'] zn by simp
    have after: "x \<notin> fst ` set ys \<Longrightarrow> x \<noteq> fst y \<Longrightarrow> x \<noteq> fst e \<Longrightarrow> x \<noteq> fst z \<Longrightarrow>
        nodes None (ys @ y # e # z # zs') x = nodes None (ys @ y # z # zs') x"
    proof -
      assume a: "x \<notin> fst ` set ys" "x \<noteq> fst y" "x \<noteq> fst e" "x \<noteq> fst z"
      have "nodes None ((ys @ [y, e]) @ z # zs') x = nodes (Some (fst z)) zs' x"
        using a by (intro nodes_after) auto
      moreover have "nodes None ((ys @ [y]) @ z # zs') x = nodes (Some (fst z)) zs' x"
        using a by (intro nodes_after) auto
      ultimately show ?thesis by simp
    qed
    show ?thesis
    proof (cases "x \<in> fst ` set ys")
      case True
      with before ky ke kz zn hd Cons show ?thesis
        by (auto simp: lru_state_def reserved_distinct)
    next
      case False
      with after ny ne nz ky ke kz zn nin hd Cons show ?thesis
        by (auto simp: lru_state_def reserved_distinct)
    qed
  qed
qed

lemma wf_remove: "wf_list (ys @ y # e # zs) \<Longrightarrow> wf_list (ys @ y # zs) \<and> valid_key (fst e) \<and> fst e \<notin> fst ` set (ys @ y # zs)"
  by (auto simp: wf_list_def)

lemma setAsTop_state:
  assumes wf: "wf_list (ys @ y # e # zs)"
  shows "setAsTop \<lparr>node_value = snd e, node_key = fst e, node_next = next_key zs, node_prev = Some (fst y)\<rparr>
           (lru_state (ys @ y # e # zs) sz ch) = Inr (lru_state (e # ys @ y # zs) sz ch)"
proof -
  let ?st = "lru_state (ys @ y # e # zs) sz ch"
  let ?n = "\<lparr>node_value = snd e, node_key = fst e, node_next = next_key zs, node_prev = Some (fst y)\<rparr>"
  have d: "distinct (map fst (ys @ y # e # zs))" using wf by (simp add: wf_list_def)
  have vy: "valid_key (fst y)" using wf by (auto simp: wf_list_def)
  have ny: "fst y \<noteq> []" using vy by (simp add: valid_key_def)
  have gy: "getNode (fst y) ?st =
      Inr (Some \<lparr>node_value = snd y, node_key = fst y, node_next = Some (fst e),
                  node_prev = (if ys = [] then None else Some (fst (last ys)))\<rparr>)"
    using getNode_present [of y ys "e # zs" sz ch] vy d by auto
  from wf_remove [OF wf] have tl: "setTail ?n ((lru_state (ys @ y # zs) sz ch)(fst e \<mapsto> NodeCell ?n))
      = Inr (lru_state ((fst e, snd e) # ys @ y # zs) sz ch)"
    by (intro setTail_state) auto
  show ?thesis
  proof (cases zs)
    case Nil
    with unlink_state [OF wf, of sz ch] tl ny gy show ?thesis
      by (simp add: setAsTop_def lookup_ref_def setNode_def)
  next
    case (Cons z zs')
    have vz: "valid_key (fst z)" using wf Cons by (auto simp: wf_list_def)
    have nz: "fst z \<noteq> []" using vz by (simp add: valid_key_def)
    have "fst z \<notin> fst ` set (ys @ [y, e])" using d Cons by auto
    then have gz: "getNode (fst z) (lru_state ((ys @ [y, e]) @ z # zs') sz ch) =
      Inr (Some \<lparr>node_value = snd z, node_key = fst z, node_next = next_key zs',
                  node_prev = Some (fst e)\<rparr>)"
      using getNode_present [of z "ys @ [y, e]" zs' sz ch] vz by simp
    with unlink_state [OF wf, of sz ch] tl ny nz gy Cons show ?thesis
      by (simp add: setAsTop_def lookup_ref_def setNode_def)
  qed
qed

subsection \<open>The public operations\<close>

lemma filter_other_keys: "k \<notin> fst ` set ys \<Longrightarrow> filter (\<lambda>e. fst e \<noteq> k) ys = ys"
  by (induction ys) auto

lemma promote_split:
  "distinct (map fst (ys @ (k, v) # zs)) \<Longrightarrow> promote k (ys @ (k, v) # zs) = (k, v) # ys @ zs"
proof -
  assume d: "distinct (map fst (ys @ (k, v) # zs))"
  then have "map_of (ys @ (k, v) # zs) k = Some v" by (intro map_of_is_SomeI) auto
  moreover have "k \<notin> fst ` set ys" "k \<notin> fst ` set zs" using d by auto
  ultimately show ?thesis by (simp add: promote_def filter_other_keys)
qed

lemma promote_absent: "k \<notin> fst ` set xs \<Longrightarrow> promote k xs = xs"
proof -
  assume "k \<notin> fst ` set xs"
  then have "map_of xs k = None" by (simp add: map_of_eq_None_iff)
  then show ?thesis by (simp add: promote_def)
qed

lemma lru_get_present:
  assumes wf: "wf_list (ys @ (k, v) # zs)"
  shows "lru_get k (lru_state (ys @ (k, v) # zs) sz ch) = Inr (v, lru_state ((k, v) # ys @ zs) sz ch)"
proof -
  have d: "distinct (map fst (ys @ (k, v) # zs))" and vk: "valid_key k"
    using wf by (auto simp: wf_list_def)
  have g: "getNode k (lru_state (ys @ (k, v) # zs) sz ch) =
      Inr (Some \<lparr>node_value = v, node_key = k, node_next = next_key zs,
                  node_prev = (if ys = [] then None else Some (fst (last ys)))\<rparr>)"
    using getNode_present [of "(k, v)" ys zs sz ch] vk d by auto
  show ?thesis
  proof (cases ys rule: rev_cases)
    case Nil
    with g show ?thesis
      by (simp add: lru_get_def storage_get_def state_reads)
  next
    case (snoc ys' y)
    have "fst (hd (ys @ (k, v) # zs)) \<noteq> k" using d snoc by (cases ys') auto
    with g snoc setAsTop_state [of ys' y "(k, v)" zs sz ch] wf show ?thesis
      by (simp add: lru_get_def storage_get_def state_reads)
  qed
qed

lemma lru_get_state:
  assumes wf: "wf_list xs" and vk: "valid_key k"
  shows "lru_get k (lru_state xs sz ch) =
           Inr (case map_of xs k of None \<Rightarrow> JUndefined | Some v \<Rightarrow> v, lru_state (promote k xs) sz ch)"
proof (cases "k \<in> fst ` set xs")
  case False
  then have "map_of xs k = None" by (simp add: map_of_eq_None_iff)
  with False vk show ?thesis
    by (simp add: lru_get_def getNode_absent promote_absent)
next
  case True
  then obtain v where "(k, v) \<in> set xs" by auto
  then obtain ys zs where xs: "xs = ys @ (k, v) # zs" by (auto dest: split_list)
  have d: "distinct (map fst (ys @ (k, v) # zs))" using wf xs by (simp add: wf_list_def)
  then have "map_of (ys @ (k, v) # zs) k = Some v" by (intro map_of_is_SomeI) auto
  with lru_get_present [of ys k v zs sz ch] promote_split [OF d] wf xs show ?thesis by simp
qed

lemma counters_state:
  assumes "\<not> promises cfg"
  shows "increaseSize cfg (lru_state xs sz ch) = lru_state xs (sz + 1) ch"
    "decreaseSize cfg n (lru_state xs sz ch) = lru_state xs (sz - n) ch"
    "increaseCharsSize cfg m (lru_state xs sz ch) = lru_state xs sz (ch + m)"
    "decreaseCharsSize cfg m (lru_state xs sz ch) = lru_state xs sz (ch - m)"
  using assms
  by (auto simp: increaseSize_def decreaseSize_def increaseCharsSize_def decreaseCharsSize_def
      getSize_state getCharsSize_state lru_state_def fun_eq_iff reserved_distinct)

lemma nodes_value:
  "fst e' = fst e \<Longrightarrow> x \<noteq> fst e \<Longrightarrow> nodes p (ys @ e' # zs) x = nodes p (ys @ e # zs) x"
proof (induction ys arbitrary: p)
  case Nil
  then show ?case by simp
next
  case (Cons a as)
  then show ?case by (cases as) auto
qed

lemma setNode_value_state:
  assumes wf: "wf_list (ys @ (k, v) # zs)"
  shows "setNode k \<lparr>node_value = v', node_key = k, node_next = next_key zs,
                     node_prev = (if ys = [] then None else Some (fst (last ys)))\<rparr>
           (lru_state (ys @ (k, v) # zs) sz ch) = lru_state (ys @ (k, v') # zs) sz ch"
proof (rule ext)
  fix x
  have d: "k \<notin> fst ` set ys" and vk: "valid_key k" using wf by (auto simp: wf_list_def)
  have n: "nodes None (ys @ (k, v') # zs) k = Some (NodeCell \<lparr>node_value = v', node_key = k, node_next = next_key zs,
                     node_prev = (if ys = [] then None else Some (fst (last ys)))\<rparr>)"
    using nodes_split [of "(k, v')" ys None zs] d by simp
  have o: "x \<noteq> k \<Longrightarrow> nodes None (ys @ (k, v') # zs) x = nodes None (ys @ (k, v) # zs) x"
    using nodes_value [of "(k, v')" "(k, v)" x None ys zs] by simp
  have h: "fst (hd (ys @ (k, v') # zs)) = fst (hd (ys @ (k, v) # zs))" by (cases ys) auto
  have l: "fst (last (ys @ (k, v') # zs)) = fst (last (ys @ (k, v) # zs))" by (cases zs rule: rev_cases) auto
  from n o h l valid_keyD [OF vk]
  show "setNode k \<lparr>node_value = v', node_key = k, node_next = next_key zs,
                     node_prev = (if ys = [] then None else Some (fst (last ys)))\<rparr>
           (lru_state (ys @ (k, v) # zs) sz ch) x = lru_state (ys @ (k, v') # zs) sz ch x"
    by (auto simp: setNode_def lru_state_def reserved_distinct)
qed

lemma lru_set_present:
  assumes wf: "wf_list (ys @ (k, v) # zs)"
  shows "lru_set cfg k v' (lru_state (ys @ (k, v) # zs) sz ch) = Some (Inr (lru_state ((k, v') # ys @ zs) sz ch))"
proof -
  have d: "k \<notin> fst ` set ys" and vk: "valid_key k" using wf by (auto simp: wf_list_def)
  have wf': "wf_list (ys @ (k, v') # zs)" using wf by (auto simp: wf_list_def)
  have g: "getNode k (lru_state (ys @ (k, v) # zs) sz ch) =
      Inr (Some \<lparr>node_value = v, node_key = k, node_next = next_key zs,
                  node_prev = (if ys = [] then None else Some (fst (last ys)))\<rparr>)"
    using getNode_present [of "(k, v)" ys zs sz ch] vk d by auto
  show ?thesis
    using setNode_value_state [OF wf, of v' sz ch] lru_get_present [OF wf', of sz ch]
    by (simp add: lru_set_def g)
qed

lemma lru_set_first:
  assumes vk: "valid_key k" and np: "\<not> promises cfg"
  shows "lru_set cfg k v Map.empty =
           Some (Inr (lru_state [(k, v)] 1 (getMetadataEstimatedCharsSize + getNewNodeEstimatedSize k v)))"
proof -
  note kk = valid_keyD [OF vk]
  let ?n = "\<lparr>node_value = v, node_key = k, node_next = None, node_prev = None\<rparr>"
  have i: "initialize ?n Map.empty = (lru_state [(k, v)] 0 getMetadataEstimatedCharsSize)(sizeKey := None)"
    using kk by (auto simp: initialize_def Let_def setNode_def lru_state_def fun_eq_iff reserved_distinct)
  have s: "increaseSize cfg ((lru_state [(k, v)] 0 c)(sizeKey := None)) = lru_state [(k, v)] 1 c" for c
    by (auto simp: increaseSize_def getSize_def storage_get_def number_or_zero_def lru_state_def fun_eq_iff
        reserved_distinct)
  show ?thesis
    using kk by (simp add: lru_set_def getNode_def addNewNode_def Let_def getSize_def storage_get_def
        number_or_zero_def i s counters_state [OF np])
qed

lemma checkCount_keep:
  "getSize cfg st + 1 \<le> capacity cfg \<Longrightarrow> checkCount cfg st = Inr st"
  by (simp add: checkCount_def)

lemma checkCount_evict:
  assumes "wf_list (ys @ [y, e])" "sz + 1 > capacity cfg" "\<not> promises cfg"
  shows "checkCount cfg (lru_state (ys @ [y, e]) sz ch) = Inr (lru_state (ys @ [y]) (sz - 1) ch)"
  using assms by (simp add: checkCount_def getSize_state removeHead_state counters_state)

lemma lru_set_new_keep:
  assumes wf: "wf_list xs" and vk: "valid_key k" and new: "k \<notin> fst ` set xs"
    and sz: "sz \<noteq> 0" "sz + 1 \<le> capacity cfg" and nc: "charsCapacity cfg = None"
    and np: "\<not> promises cfg"
  shows "lru_set cfg k v (lru_state xs sz ch) =
           Some (Inr (lru_state ((k, v) # xs) (sz + 1) (ch + getNewNodeEstimatedSize k v)))"
proof -
  have t: "setTail \<lparr>node_value = v, node_key = k, node_next = None, node_prev = None\<rparr>
             ((lru_state xs sz ch)(k := lru_state xs sz ch k)) = Inr (lru_state ((k, v) # xs) sz ch)"
    using wf vk new by (rule setTail_state)
  show ?thesis
    using sz nc np t
    by (simp add: lru_set_def getNode_absent [OF vk new] addNewNode_def Let_def getSize_state
        checkCapacity_def checkCount_keep counters_state)
qed

lemma lru_set_new_evict:
  assumes wf: "wf_list (ys @ [y, e])" and vk: "valid_key k" and new: "k \<notin> fst ` set (ys @ [y, e])"
    and sz: "sz \<noteq> 0" "sz + 1 > capacity cfg" and nc: "charsCapacity cfg = None"
    and np: "\<not> promises cfg"
  shows "lru_set cfg k v (lru_state (ys @ [y, e]) sz ch) =
           Some (Inr (lru_state ((k, v) # ys @ [y]) sz (ch + getNewNodeEstimatedSize k v)))"
proof -
  have wf': "wf_list (ys @ [y])" and new': "k \<notin> fst ` set (ys @ [y])"
    using wf new by (auto simp: wf_list_def)
  have t: "setTail \<lparr>node_value = v, node_key = k, node_next = None, node_prev = None\<rparr>
             ((lru_state (ys @ [y]) (sz - 1) ch)(k := lru_state (ys @ [y]) (sz - 1) ch k))
           = Inr (lru_state ((k, v) # ys @ [y]) (sz - 1) ch)"
    using wf' vk new' by (rule setTail_state)
  show ?thesis
    using sz nc np t checkCount_evict [OF wf sz(2) np, of ch]
    by (simp add: lru_set_def getNode_absent [OF vk new] addNewNode_def Let_def getSize_state
        checkCapacity_def counters_state)
qed

subsection \<open>Traversal\<close>

lemma walk_next_state:
  "wf_list (ys @ e # zs) \<Longrightarrow>
   walk node_next (lru_state (ys @ e # zs) sz ch)
     (Some \<lparr>node_value = snd e, node_key = fst e, node_next = next_key zs, node_prev = pv\<rparr>)
   = Some (entry_list zs, None)"
proof (induction zs arbitrary: ys e pv)
  case Nil
  show ?case by (subst walk.simps) (simp add: ref_of_def entry_list_def)
next
  case (Cons z zs')
  have vz: "valid_key (fst z)" and d: "fst z \<notin> fst ` set (ys @ [e])"
    using Cons.prems by (auto simp: wf_list_def)
  have nz: "fst z \<noteq> []" using vz by (simp add: valid_key_def)
  have g: "getNode (fst z) (lru_state ((ys @ [e]) @ z # zs') sz ch) =
      Inr (Some \<lparr>node_value = snd z, node_key = fst z, node_next = next_key zs', node_prev = Some (fst e)\<rparr>)"
    using getNode_present [OF vz d, of zs' sz ch] by simp
  have ih: "walk node_next (lru_state ((ys @ [e]) @ z # zs') sz ch)
     (Some \<lparr>node_value = snd z, node_key = fst z, node_next = next_key zs', node_prev = Some (fst e)\<rparr>)
     = Some (entry_list zs', None)"
    using Cons.prems by (intro Cons.IH) simp
  show ?case
    using nz g ih by (subst walk.simps) (simp add: ref_of_def entry_list_def entry_of_def)
qed

lemma entries_state:
  assumes "wf_list xs"
  shows "entries (lru_state xs sz ch) = Some (entry_list xs, None)"
proof -
  from assms obtain e es where xs: "xs = e # es" by (cases xs) (auto simp: wf_list_def)
  have "walk node_next (lru_state ([] @ e # es) sz ch)
     (Some \<lparr>node_value = snd e, node_key = fst e, node_next = next_key es, node_prev = None\<rparr>)
     = Some (entry_list es, None)"
    using assms xs by (intro walk_next_state) simp
  then show ?thesis
    using assms xs by (simp add: entries_def getTail_state entry_of_def entry_list_def)
qed

subsection \<open>References without a record, and the eviction loop\<close>

lemma getHead_dangling:
  "st headKeyPointer = Some (Text p) \<Longrightarrow> st p = None \<Longrightarrow> getHead st = Inr None"
  by (simp add: getHead_def storage_get_def getNode_def)

lemma getTail_dangling:
  "st tailKeyPointer = Some (Text p) \<Longrightarrow> st p = None \<Longrightarrow> getTail st = Inr None"
  by (simp add: getTail_def storage_get_def getNode_def)

lemma removeHead_no_head: "getHead st = Inr None \<Longrightarrow> removeHead st = Inr (None, st)"
  by (simp add: removeHead_def)

lemma evictLoop_stuck:
  assumes "evictLoop c est cap st ri rc = Some r"
  shows "\<not> (cap < c + est - rc \<and> getHead st = Inr None)"
proof (rule evictLoop.raw_induct
    [where P = "\<lambda>c est cap st ri rc r. \<not> (cap < c + est - rc \<and> getHead st = Inr None)", OF _ assms])
  fix f :: "int \<Rightarrow> int \<Rightarrow> int \<Rightarrow> storage \<Rightarrow> int \<Rightarrow> int \<Rightarrow> (error + (storage \<times> int \<times> int)) option"
    and c est cap st ri rc r
  assume ih: "\<And>c est cap st ri rc r. f c est cap st ri rc = Some r \<Longrightarrow>
                \<not> (cap < c + est - rc \<and> getHead st = Inr None)"
    and step: "(if cap < c + est - rc then
                  (case removeHead st of
                     Inl e \<Rightarrow> Some (Inl e)
                   | Inr (removedItem, st') \<Rightarrow>
                       f c est cap st' (ri + 1)
                         (rc + (case removedItem of None \<Rightarrow> 0 | Some r \<Rightarrow> getNodeCharsSize r)))
                else Some (Inr (st, ri, rc))) = Some r"
  show "\<not> (cap < c + est - rc \<and> getHead st = Inr None)"
  proof
    assume s: "cap < c + est - rc \<and> getHead st = Inr None"
    with step have "f c est cap st (ri + 1) rc = Some r"
      by (simp add: removeHead_no_head)
    from ih [OF this] s show False by simp
  qed
qed

lemma evictLoop_diverges:
  "cap < c + est - rc \<Longrightarrow> getHead st = Inr None \<Longrightarrow> evictLoop c est cap st ri rc = None"
  using evictLoop_stuck [of c est cap st ri rc] by (cases "evictLoop c est cap st ri rc") auto

lemma removeHead_single_state:
  assumes "wf_list [(k, v)]"
  shows "removeHead (lru_state [(k, v)] sz ch) =
           Inr (Some \<lparr>node_value = v, node_key = k, node_next = None, node_prev = None\<rparr>,
                (lru_state [(k, v)] sz ch)(k := None))"
proof -
  have "k \<noteq> []" using assms by (simp add: wf_list_def valid_key_def)
  then show ?thesis
    using getHead_state [of "[]" "(k, v)" sz ch] assms by (simp add: removeHead_def)
qed

lemma lru_set_single_diverges:
  assumes wf: "wf_list [(k0, v0)]" and vk: "valid_key k" and new: "k \<noteq> k0" and sz: "sz \<noteq> 0"
    and cap: "charsCapacity cfg = Some cap" "0 < cap"
    and big: "cap < ch + getNewNodeEstimatedSize k v
                  - getNodeCharsSize \<lparr>node_value = v0, node_key = k0, node_next = None, node_prev = None\<rparr>"
    and np: "\<not> promises cfg"
  shows "lru_set cfg k v (lru_state [(k0, v0)] sz ch) = None"
proof -
  let ?st = "lru_state [(k0, v0)] sz ch"
  let ?n0 = "\<lparr>node_value = v0, node_key = k0, node_next = None, node_prev = None\<rparr>"
  have vk0: "valid_key k0" using wf by (simp add: wf_list_def)
  have g: "getNode k ?st = Inr None" using vk new by (intro getNode_absent) auto
  have pos: "0 \<le> getNodeCharsSize ?n0" by (simp add: getNodeCharsSize_def)
  have h: "getHead (?st(k0 := None)) = Inr None"
    using valid_keyD [OF vk0] by (intro getHead_dangling [of _ k0]) (auto simp: state_reads)
  have l2: "evictLoop ch (getNewNodeEstimatedSize k v) cap (?st(k0 := None)) 1 (getNodeCharsSize ?n0) = None"
    using big h by (intro evictLoop_diverges) auto
  have l1: "evictLoop ch (getNewNodeEstimatedSize k v) cap ?st 0 0 = None"
    using big pos l2 by (subst evictLoop.simps) (simp add: removeHead_single_state [OF wf])
  show ?thesis
    using sz cap np l1
    by (simp add: lru_set_def g addNewNode_def Let_def getSize_state checkCapacity_def getCharsSize_state)
qed

lemma one_entry_reached:
  "\<not> promises cfg \<Longrightarrow> lru_set cfg ''1'' (JStr ''a'') Map.empty = Some (Inr one_entry)"
proof -
  have v: "valid_key ''1''"
    by (simp add: valid_key_def reserved_def tailKeyPointer_def headKeyPointer_def sizeKey_def charsSizeKey_def)
  have "getMetadataEstimatedCharsSize + getNewNodeEstimatedSize ''1'' (JStr ''a'') = 337"
    by code_simp
  moreover assume "\<not> promises cfg"
  ultimately show ?thesis by (simp add: lru_set_first [OF v] one_entry_def)
qed

subsection \<open>Runs\<close>

text \<open>
  A run of operations on a new cache follows the reference model, as long as the entry
  capacity is at least 2 and the byte capacity is off (\<open>run_refines\<close>), or as long as
  nothing is evicted (\<open>run_fits\<close>).
\<close>

lemma lru_set_new_keep_bytes:
  assumes wf: "wf_list xs" and vk: "valid_key k" and new: "k \<notin> fst ` set xs"
    and sz: "sz \<noteq> 0" "sz + 1 \<le> capacity cfg"
    and nc: "charsCapacity cfg = Some cap" "ch + getNewNodeEstimatedSize k v \<le> cap"
    and np: "\<not> promises cfg"
  shows "lru_set cfg k v (lru_state xs sz ch) =
           Some (Inr (lru_state ((k, v) # xs) (sz + 1) (ch + getNewNodeEstimatedSize k v)))"
proof -
  have t: "setTail \<lparr>node_value = v, node_key = k, node_next = None, node_prev = None\<rparr>
             ((lru_state xs sz ch)(k := lru_state xs sz ch k)) = Inr (lru_state ((k, v) # xs) sz ch)"
    using wf vk new by (rule setTail_state)
  have l: "evictLoop ch (getNewNodeEstimatedSize k v) cap (lru_state xs sz ch) 0 0
             = Some (Inr (lru_state xs sz ch, 0, 0))"
    using nc(2) by (subst evictLoop.simps) simp
  show ?thesis
    using sz nc np t l
    by (simp add: lru_set_def getNode_absent [OF vk new] addNewNode_def Let_def getSize_state
        getCharsSize_state checkCapacity_def checkCount_keep counters_state)
qed

lemma promote_cases:
  assumes "distinct (map fst xs)"
  shows "promote k xs = xs \<or> (\<exists>ys v zs. xs = ys @ (k, v) # zs \<and> promote k xs = (k, v) # ys @ zs)"
proof (cases "k \<in> fst ` set xs")
  case False
  then show ?thesis by (simp add: promote_absent)
next
  case True
  then obtain v where "(k, v) \<in> set xs" by auto
  then obtain ys zs where xs: "xs = ys @ (k, v) # zs" by (auto dest: split_list)
  with assms promote_split [of ys k v zs] show ?thesis by auto
qed

lemma promote_keeps:
  assumes "wf_list xs"
  shows "wf_list (promote k xs) \<and> length (promote k xs) = length xs
         \<and> estimate_sum (promote k xs) = estimate_sum xs"
proof -
  have "distinct (map fst xs)" using assms by (simp add: wf_list_def)
  from promote_cases [OF this, of k] assms show ?thesis
    by (auto simp: wf_list_def estimate_sum_def)
qed

lemma promote_nonempty: "xs \<noteq> [] \<Longrightarrow> promote k xs \<noteq> []"
  by (simp add: promote_def split: option.splits)

lemma estimate_sum_entries: "estimates (entry_list xs) = estimate_sum xs"
  by (simp add: estimates_def estimate_sum_def entry_list_def comp_def)

lemma run_fits:
  assumes "charsCapacity cfg = Some cap" "fits cfg cap xs ops" "xs = [] \<or> wf_list xs"
    and np: "\<not> promises cfg"
  shows "\<exists>ys. run cfg ops (accounted xs) = Some (Inr (accounted ys)) \<and> (ys = [] \<or> wf_list ys)"
  using assms(2,3)
proof (induction ops arbitrary: xs)
  case Nil
  then show ?case by auto
next
  case (Cons a ops)
  show ?case
  proof (cases a)
    case (Get k)
    with Cons.prems have vk: "valid_key k" and f: "fits cfg cap (promote k xs) ops" by auto
    have g: "lru_get k (accounted xs) = Inr (case map_of xs k of None \<Rightarrow> JUndefined | Some v \<Rightarrow> v, accounted (promote k xs))"
    proof (cases "xs = []")
      case True
      then show ?thesis by (simp add: accounted_def lru_get_def getNode_def promote_def)
    next
      case False
      with Cons.prems have wf: "wf_list xs" by auto
      from False promote_nonempty [of xs k] promote_keeps [OF wf, of k] lru_get_state [OF wf vk]
      show ?thesis by (simp add: accounted_def)
    qed
    have w: "promote k xs = [] \<or> wf_list (promote k xs)"
      using Cons.prems(2) promote_keeps [of xs k] by (auto simp: promote_def)
    from Cons.IH [OF f w] g Get show ?thesis by simp
  next
    case (Set k v)
    with Cons.prems have vk: "valid_key k" and new: "k \<notin> fst ` set xs"
      and room: "xs = [] \<or> (int (length xs) + 1 \<le> capacity cfg
                    \<and> getMetadataEstimatedCharsSize + estimate_sum xs + getNewNodeEstimatedSize k v \<le> cap)"
      and f: "fits cfg cap ((k, v) # xs) ops" by auto
    have s: "lru_set cfg k v (accounted xs) = Some (Inr (accounted ((k, v) # xs)))"
    proof (cases "xs = []")
      case True
      then show ?thesis by (simp add: accounted_def lru_set_first [OF vk np] estimate_sum_def)
    next
      case False
      with Cons.prems have wf: "wf_list xs" by auto
      from False room have r: "int (length xs) + 1 \<le> capacity cfg"
        "getMetadataEstimatedCharsSize + estimate_sum xs + getNewNodeEstimatedSize k v \<le> cap" by auto
      have nz: "int (length xs) \<noteq> 0" using False by simp
      from lru_set_new_keep_bytes [OF wf vk new nz r(1) assms(1) r(2) np] False
      show ?thesis by (simp add: accounted_def estimate_sum_def algebra_simps)
    qed
    have w: "(k, v) # xs = [] \<or> wf_list ((k, v) # xs)"
      using Cons.prems(2) vk new by (auto simp: wf_list_def)
    from Cons.IH [OF f w] s Set show ?thesis by simp
  qed
qed

lemma two_entries:
  assumes "2 \<le> length xs"
  shows "\<exists>ys y e. xs = ys @ [y, e]"
proof -
  from assms obtain zs e where a: "xs = zs @ [e]" by (cases xs rule: rev_cases) auto
  with assms obtain ys y where "zs = ys @ [y]" by (cases zs rule: rev_cases) auto
  with a show ?thesis by auto
qed

lemma run_refines:
  assumes "charsCapacity cfg = None" "2 \<le> capacity cfg"
    and "list_all (\<lambda>a. valid_key (op_key a)) ops"
    and "xs = [] \<or> wf_list xs" "int (length xs) \<le> capacity cfg"
    and np: "\<not> promises cfg"
  shows "\<exists>ch'. run cfg ops (counted xs ch) = Some (Inr (counted (lru_model cfg xs ops) ch'))
           \<and> (lru_model cfg xs ops = [] \<or> wf_list (lru_model cfg xs ops))
           \<and> int (length (lru_model cfg xs ops)) \<le> capacity cfg"
  using assms(3,4,5)
proof (induction ops arbitrary: xs ch)
  case Nil
  then show ?case by auto
next
  case (Cons a ops)
  show ?case
  proof (cases a)
    case (Get k)
    with Cons.prems have vk: "valid_key k" and vs: "list_all (\<lambda>a. valid_key (op_key a)) ops" by auto
    have g: "lru_get k (counted xs ch) =
        Inr (case map_of xs k of None \<Rightarrow> JUndefined | Some v \<Rightarrow> v, counted (promote k xs) ch)"
    proof (cases "xs = []")
      case True
      then show ?thesis by (simp add: counted_def lru_get_def getNode_def promote_def)
    next
      case False
      with Cons.prems have wf: "wf_list xs" by auto
      from False promote_nonempty [of xs k] promote_keeps [OF wf, of k] lru_get_state [OF wf vk]
      show ?thesis by (simp add: counted_def)
    qed
    have w: "promote k xs = [] \<or> wf_list (promote k xs)"
      using Cons.prems(2) promote_keeps [of xs k] by (auto simp: promote_def)
    have l: "int (length (promote k xs)) \<le> capacity cfg"
      using Cons.prems(2,3) promote_keeps [of xs k] by (auto simp: promote_def)
    from Cons.IH [OF vs w l, of ch] g Get show ?thesis by simp
  next
    case (Set k v)
    with Cons.prems have vk: "valid_key k" and vs: "list_all (\<lambda>a. valid_key (op_key a)) ops" by auto
    let ?xs' = "if k \<in> fst ` set xs then (k, v) # filter (\<lambda>e. fst e \<noteq> k) xs
        else if int (length xs) + 1 > capacity cfg then (k, v) # butlast xs
        else (k, v) # xs"
    have s: "\<exists>c. lru_set cfg k v (counted xs ch) = Some (Inr (counted ?xs' c))
           \<and> wf_list ?xs' \<and> int (length ?xs') \<le> capacity cfg"
    proof (cases "k \<in> fst ` set xs")
      case True
      then have ne: "xs \<noteq> []" by auto
      with Cons.prems have wf: "wf_list xs" by auto
      from True obtain v0 where "(k, v0) \<in> set xs" by auto
      then obtain ys zs where xs: "xs = ys @ (k, v0) # zs" by (auto dest: split_list)
      have d: "k \<notin> fst ` set ys" "k \<notin> fst ` set zs" using wf xs by (auto simp: wf_list_def)
      then have f: "filter (\<lambda>e. fst e \<noteq> k) xs = ys @ zs" by (simp add: xs filter_other_keys)
      have wf': "wf_list ((k, v) # ys @ zs)" using wf xs by (auto simp: wf_list_def)
      have "lru_set cfg k v (lru_state xs (int (length xs)) ch)
              = Some (Inr (lru_state ((k, v) # ys @ zs) (int (length xs)) ch))"
        using lru_set_present [of ys k v0 zs cfg v "int (length xs)" ch] wf xs by simp
      with True ne f wf' Cons.prems(3) xs show ?thesis
        by (auto simp: counted_def intro!: exI [of _ ch])
    next
      case False
      show ?thesis
      proof (cases "xs = []")
        case True
        have "wf_list [(k, v)]" using vk by (simp add: wf_list_def)
        with True False assms(2) lru_set_first [OF vk np, of v] show ?thesis
          by (auto simp: counted_def)
      next
        case ne: False
        with Cons.prems have wf: "wf_list xs" by auto
        have nz: "int (length xs) \<noteq> 0" using ne by simp
        show ?thesis
        proof (cases "int (length xs) + 1 > capacity cfg")
          case True
          with assms(2) have "2 \<le> length xs" by simp
          from two_entries [OF this] obtain ys y e where xs: "xs = ys @ [y, e]" by auto
          have wf': "wf_list ((k, v) # ys @ [y])" using wf xs vk False by (auto simp: wf_list_def)
          have "lru_set cfg k v (lru_state (ys @ [y, e]) (int (length xs)) ch) =
              Some (Inr (lru_state ((k, v) # ys @ [y]) (int (length xs)) (ch + getNewNodeEstimatedSize k v)))"
            using wf False xs True nz assms(1) np by (intro lru_set_new_evict [OF _ vk]) auto
          with True False ne wf' Cons.prems(3) xs show ?thesis
            by (auto simp: counted_def butlast_append)
        next
          case room: False
          have wf': "wf_list ((k, v) # xs)" using wf vk False by (auto simp: wf_list_def)
          have "lru_set cfg k v (lru_state xs (int (length xs)) ch) =
              Some (Inr (lru_state ((k, v) # xs) (int (length xs) + 1) (ch + getNewNodeEstimatedSize k v)))"
            using room nz assms(1) np by (intro lru_set_new_keep [OF wf vk False]) auto
          with room False ne wf' show ?thesis
            by (auto simp: counted_def add.commute intro!: exI [of _ "ch + getNewNodeEstimatedSize k v"])
        qed
      qed
    qed
    then obtain c where c: "lru_set cfg k v (counted xs ch) = Some (Inr (counted ?xs' c))"
      and w: "wf_list ?xs'" and l: "int (length ?xs') \<le> capacity cfg" by blast
    from w have w': "?xs' = [] \<or> wf_list ?xs'" by simp
    from Cons.IH [OF vs w' l, of c] c Set show ?thesis by simp
  qed
qed

lemma run_from_empty:
  assumes "charsCapacity cfg = None" "2 \<le> capacity cfg"
    and "list_all (\<lambda>a. valid_key (op_key a)) ops"
    and np: "\<not> promises cfg"
  shows "\<exists>st. run cfg ops Map.empty = Some (Inr st)
           \<and> int (length (lru_model cfg [] ops)) \<le> capacity cfg
           \<and> (lru_model cfg [] ops = [] \<and> st = Map.empty
              \<or> entries st = Some (entry_list (lru_model cfg [] ops), None)
                \<and> getSize cfg st = int (length (lru_model cfg [] ops)))"
proof -
  from run_refines [OF assms(1,2,3) _ _ np, of "[]" 0] assms(2) obtain ch' where
    r: "run cfg ops (counted [] 0) = Some (Inr (counted (lru_model cfg [] ops) ch'))"
    and w: "lru_model cfg [] ops = [] \<or> wf_list (lru_model cfg [] ops)"
    and l: "int (length (lru_model cfg [] ops)) \<le> capacity cfg" by auto
  show ?thesis
  proof (cases "lru_model cfg [] ops = []")
    case True
    with r l show ?thesis by (simp add: counted_def)
  next
    case False
    with w have "wf_list (lru_model cfg [] ops)" by simp
    from entries_state [OF this] False r l show ?thesis
      by (simp add: counted_def getSize_state [OF np])
  qed
qed

subsection \<open>The wrapper\<close>

lemma memoized_hit:
  assumes "derive_key md5 (keyResolver a) xs = Inr k"
    and "call_cache_get (cache a) k (cache_state w) = Inr (v, c1)" "truthy v"
    and "call_hook cacheUsed xs = None"
  shows "memoized md5 a cacheUsed funcCalled logError xs w
           = Some (Inr v, emit (CacheUsed xs) (w\<lparr>cache_state := c1\<rparr>))"
  using assms by (simp add: memoized_def try_block_def)

lemma memoized_miss_truthy:
  assumes "derive_key md5 (keyResolver a) xs = Inr k"
    and "call_cache_get (cache a) k (cache_state w) = Inr (v, c1)" "\<not> truthy v"
    and "call_hook funcCalled xs = None"
    and "call_func (func a) xs = Inr r" "truthy r"
    and "call_cache_set (cache a) k r c1 = Some (Inr c2)"
  shows "memoized md5 a cacheUsed funcCalled logError xs w
           = Some (Inr r, (emit (Invoke xs) (emit (FuncCalled xs) (w\<lparr>cache_state := c1\<rparr>)))\<lparr>cache_state := c2\<rparr>)"
  using assms by (simp add: memoized_def try_block_def after_try_def emit_def)

lemma memoized_miss_falsy:
  assumes "derive_key md5 (keyResolver a) xs = Inr k"
    and "call_cache_get (cache a) k (cache_state w) = Inr (v, c1)" "\<not> truthy v"
    and "call_hook funcCalled xs = None"
    and "call_func (func a) xs = Inr r" "\<not> truthy r"
    and "call_cache_set (cache a) k r c1 = Some (Inr c2)"
  shows "memoized md5 a cacheUsed funcCalled logError xs w
           = Some (Inr r, emit (Invoke xs) (emit (FuncCalled xs)
                 ((emit (Invoke xs) (emit (FuncCalled xs) (w\<lparr>cache_state := c1\<rparr>)))\<lparr>cache_state := c2\<rparr>)))"
  using assms by (simp add: memoized_def try_block_def after_try_def emit_def)

subsection \<open>Storages the engine wrote\<close>

text \<open>
  On such a storage no step of the engine ends in an error, whatever references dangle,
  and every step leaves such a storage.
\<close>

lemma ew_cell: "engine_written st \<Longrightarrow> st k = Some c \<Longrightarrow> ok_cell k c"
  by (auto simp: engine_written_def split: option.splits dest: spec [of _ k])

lemma ew_update: "engine_written st \<Longrightarrow> ok_cell k c \<Longrightarrow> engine_written (st(k \<mapsto> c))"
  by (simp add: engine_written_def)

lemma ew_delete: "engine_written st \<Longrightarrow> engine_written (st(k := None))"
  by (simp add: engine_written_def)

lemma reserved_keys: "reserved tailKeyPointer" "reserved headKeyPointer" "reserved sizeKey" "reserved charsSizeKey"
  by (simp_all add: reserved_def)

lemma ew_getNode:
  assumes "engine_written st" "\<not> reserved k"
  shows "getNode k st = Inr None \<or> (\<exists>n. getNode k st = Inr (Some n) \<and> st k = Some (NodeCell n) \<and> ok_node n)"
proof (cases "st k")
  case None
  then show ?thesis by (simp add: getNode_def)
next
  case (Some c)
  with ew_cell [OF assms(1) Some] assms(2) show ?thesis
    by (cases c) (auto simp: getNode_def ok_cell_def)
qed

lemma ew_anchor:
  assumes "engine_written st" "a = tailKeyPointer \<or> a = headKeyPointer"
  shows "storage_get st a = None \<or> (\<exists>s. storage_get st a = Some s \<and> \<not> reserved s)"
proof (cases "st a")
  case None
  then show ?thesis by (simp add: storage_get_def)
next
  case (Some c)
  with ew_cell [OF assms(1) Some] assms(2) show ?thesis
    by (cases c) (auto simp: storage_get_def ok_cell_def reserved_keys)
qed

lemma ew_getTail:
  assumes "engine_written st"
  shows "getTail st = Inr None \<or> (\<exists>n. getTail st = Inr (Some n) \<and> ok_node n)"
  using ew_anchor [OF assms, of tailKeyPointer] ew_getNode [OF assms]
  by (fastforce simp: getTail_def)

lemma ew_getHead:
  assumes "engine_written st"
  shows "getHead st = Inr None \<or> (\<exists>n. getHead st = Inr (Some n) \<and> ok_node n)"
  using ew_anchor [OF assms, of headKeyPointer] ew_getNode [OF assms]
  by (fastforce simp: getHead_def)

lemma ew_lookup_ref:
  assumes "engine_written st" "ok_ref r"
  shows "lookup_ref r st = Inr None \<or> (\<exists>n. lookup_ref r st = Inr (Some n) \<and> ok_node n)"
proof (cases r)
  case None
  then show ?thesis by (simp add: lookup_ref_def)
next
  case (Some k)
  with assms(2) have "\<not> reserved k" by (simp add: ok_ref_def)
  from ew_getNode [OF assms(1) this] Some show ?thesis by (auto simp: lookup_ref_def)
qed

lemma ew_setNode:
  "engine_written st \<Longrightarrow> ok_node n \<Longrightarrow> \<not> reserved k \<Longrightarrow> engine_written (setNode k n st)"
  by (simp add: setNode_def ew_update ok_cell_def)

lemma ew_anchor_write:
  "engine_written st \<Longrightarrow> \<not> reserved s \<Longrightarrow> a = tailKeyPointer \<or> a = headKeyPointer \<Longrightarrow>
   engine_written (st(a \<mapsto> Text s))"
  by (auto intro!: ew_update simp: ok_cell_def reserved_keys)

lemma ew_counter_write:
  "engine_written st \<Longrightarrow> a = sizeKey \<or> a = charsSizeKey \<Longrightarrow> engine_written (st(a \<mapsto> Text s))"
  by (auto intro!: ew_update simp: ok_cell_def reserved_keys reserved_distinct)

lemma ew_counters:
  assumes "engine_written st"
  shows "engine_written (increaseSize cfg st)" "engine_written (decreaseSize cfg i st)"
    "engine_written (increaseCharsSize cfg i st)" "engine_written (decreaseCharsSize cfg i st)"
  using assms
  by (simp_all add: increaseSize_def decreaseSize_def increaseCharsSize_def decreaseCharsSize_def
      ew_counter_write)

lemma ew_setTail:
  assumes "engine_written st" "ok_node n"
  shows "\<exists>st'. setTail n st = Inr st' \<and> engine_written st'"
proof -
  from ew_getTail [OF assms(1)] show ?thesis
  proof
    assume "getTail st = Inr None"
    with assms(1) show ?thesis by (simp add: setTail_def)
  next
    assume "\<exists>c. getTail st = Inr (Some c) \<and> ok_node c"
    then obtain c where c: "getTail st = Inr (Some c)" "ok_node c" by blast
    have n: "\<not> reserved (node_key n)" "\<not> reserved (node_key c)" using assms(2) c(2) by (auto simp: ok_node_def)
    have 1: "engine_written (setNode (node_key c) (c\<lparr>node_prev := Some (node_key n)\<rparr>) st)"
      using assms c n by (intro ew_setNode) (auto simp: ok_node_def ok_ref_def)
    have 2: "engine_written (setNode (node_key n) (n\<lparr>node_next := Some (node_key c), node_prev := None\<rparr>)
               (setNode (node_key c) (c\<lparr>node_prev := Some (node_key n)\<rparr>) st))"
      using 1 assms c n by (intro ew_setNode) (auto simp: ok_node_def ok_ref_def)
    from ew_anchor_write [OF 2 n(1), of tailKeyPointer] c assms(1) show ?thesis
      by (simp add: setTail_def Let_def)
  qed
qed

lemma ew_removeHead:
  assumes "engine_written st"
  shows "\<exists>r st'. removeHead st = Inr (r, st') \<and> engine_written st'"
proof -
  from ew_getHead [OF assms] show ?thesis
  proof
    assume "getHead st = Inr None"
    with assms show ?thesis by (simp add: removeHead_def)
  next
    assume "\<exists>h. getHead st = Inr (Some h) \<and> ok_node h"
    then obtain h where h: "getHead st = Inr (Some h)" "ok_node h" by blast
    have "\<exists>st1. (case node_prev h of
                   None \<Rightarrow> Inr st
                 | Some p \<Rightarrow>
                     if p = [] then Inr st
                     else (case getNode p st of
                             Inl e \<Rightarrow> Inl e
                           | Inr None \<Rightarrow> Inr st
                           | Inr (Some newHead) \<Rightarrow>
                               Inr ((setNode (node_key newHead) (newHead\<lparr>node_next := None\<rparr>) st)
                                      (headKeyPointer \<mapsto> Text (node_key newHead))))) = Inr st1
              \<and> engine_written st1"
    proof (cases "node_prev h")
      case None
      with assms show ?thesis by simp
    next
      case (Some p)
      with h(2) have np: "\<not> reserved p" by (simp add: ok_node_def ok_ref_def)
      from ew_getNode [OF assms np] show ?thesis
      proof
        assume "getNode p st = Inr None"
        with Some assms show ?thesis by simp
      next
        assume "\<exists>m. getNode p st = Inr (Some m) \<and> st p = Some (NodeCell m) \<and> ok_node m"
        then obtain m where m: "getNode p st = Inr (Some m)" "ok_node m" by blast
        have k: "\<not> reserved (node_key m)" using m(2) by (simp add: ok_node_def)
        have "engine_written (setNode (node_key m) (m\<lparr>node_next := None\<rparr>) st)"
          using assms m(2) k by (intro ew_setNode) (auto simp: ok_node_def ok_ref_def)
        from ew_anchor_write [OF this k, of headKeyPointer] Some m(1) assms show ?thesis by simp
      qed
    qed
    then obtain st1 where s: "(case node_prev h of
                   None \<Rightarrow> Inr st
                 | Some p \<Rightarrow>
                     if p = [] then Inr st
                     else (case getNode p st of
                             Inl e \<Rightarrow> Inl e
                           | Inr None \<Rightarrow> Inr st
                           | Inr (Some newHead) \<Rightarrow>
                               Inr ((setNode (node_key newHead) (newHead\<lparr>node_next := None\<rparr>) st)
                                      (headKeyPointer \<mapsto> Text (node_key newHead))))) = Inr st1"
      and e: "engine_written st1" by blast
    show ?thesis
      unfolding removeHead_def using h(1) s e by (simp add: ew_delete)
  qed
qed

lemma ew_setAsTop:
  assumes "engine_written st" "ok_node n"
  shows "\<exists>st'. setAsTop n st = Inr st' \<and> engine_written st'"
proof -
  have rp: "ok_ref (node_prev n)" and rn: "ok_ref (node_next n)" using assms(2) by (auto simp: ok_node_def)
  obtain pn where pn: "lookup_ref (node_prev n) st = Inr pn" "pn = None \<or> (\<exists>m. pn = Some m \<and> ok_node m)"
    using ew_lookup_ref [OF assms(1) rp] by auto
  obtain nn where nn: "lookup_ref (node_next n) st = Inr nn" "nn = None \<or> (\<exists>m. nn = Some m \<and> ok_node m)"
    using ew_lookup_ref [OF assms(1) rn] by auto
  let ?st1 = "case pn of None \<Rightarrow> st | Some p \<Rightarrow> setNode (node_key p) (p\<lparr>node_next := node_next n\<rparr>) st"
  let ?st2 = "case nn of None \<Rightarrow> ?st1 | Some x \<Rightarrow> setNode (node_key x) (x\<lparr>node_prev := node_prev n\<rparr>) ?st1"
  let ?st3 = "case (nn, pn) of (None, Some p) \<Rightarrow> ?st2(headKeyPointer \<mapsto> Text (node_key p)) | _ \<Rightarrow> ?st2"
  have 1: "engine_written ?st1"
    using assms(1) pn(2) rn by (auto simp: ok_node_def intro!: ew_setNode)
  have 2: "engine_written ?st2"
    using 1 nn(2) rp by (auto simp: ok_node_def intro!: ew_setNode)
  have 3: "engine_written ?st3"
    using 2 pn(2) by (auto simp: ok_node_def split: option.splits intro!: ew_anchor_write)
  from ew_setTail [OF 3 assms(2)] pn(1) nn(1) show ?thesis
    by (simp add: setAsTop_def Let_def)
qed

lemma ew_lru_get:
  assumes "engine_written st" "\<not> reserved k"
  shows "\<exists>v st'. lru_get k st = Inr (v, st') \<and> engine_written st'"
proof -
  from ew_getNode [OF assms] show ?thesis
  proof
    assume "getNode k st = Inr None"
    with assms(1) show ?thesis by (simp add: lru_get_def)
  next
    assume "\<exists>n. getNode k st = Inr (Some n) \<and> st k = Some (NodeCell n) \<and> ok_node n"
    then obtain n where n: "getNode k st = Inr (Some n)" "ok_node n" by blast
    from ew_setAsTop [OF assms(1) n(2)] n(1) assms(1) show ?thesis
      by (auto simp: lru_get_def)
  qed
qed

lemma ew_evictLoop:
  assumes "evictLoop c est cap st ri rc = Some r"
  shows "engine_written st \<longrightarrow> (\<exists>st' a b. r = Inr (st', a, b) \<and> engine_written st')"
proof (rule evictLoop.raw_induct
    [where P = "\<lambda>c est cap st ri rc r. engine_written st \<longrightarrow> (\<exists>st' a b. r = Inr (st', a, b) \<and> engine_written st')",
     OF _ assms])
  fix f :: "int \<Rightarrow> int \<Rightarrow> int \<Rightarrow> storage \<Rightarrow> int \<Rightarrow> int \<Rightarrow> (error + (storage \<times> int \<times> int)) option"
    and c est cap st ri rc r
  assume ih: "\<And>c est cap st ri rc r. f c est cap st ri rc = Some r \<Longrightarrow>
                engine_written st \<longrightarrow> (\<exists>st' a b. r = Inr (st', a, b) \<and> engine_written st')"
    and step: "(if cap < c + est - rc then
                  (case removeHead st of
                     Inl e \<Rightarrow> Some (Inl e)
                   | Inr (removedItem, st') \<Rightarrow>
                       f c est cap st' (ri + 1)
                         (rc + (case removedItem of None \<Rightarrow> 0 | Some r \<Rightarrow> getNodeCharsSize r)))
                else Some (Inr (st, ri, rc))) = Some r"
  show "engine_written st \<longrightarrow> (\<exists>st' a b. r = Inr (st', a, b) \<and> engine_written st')"
  proof
    assume e: "engine_written st"
    show "\<exists>st' a b. r = Inr (st', a, b) \<and> engine_written st'"
    proof (cases "cap < c + est - rc")
      case False
      with step e show ?thesis by auto
    next
      case True
      from ew_removeHead [OF e] obtain x st1 where x: "removeHead st = Inr (x, st1)" "engine_written st1"
        by blast
      with step True have "f c est cap st1 (ri + 1)
          (rc + (case x of None \<Rightarrow> 0 | Some r \<Rightarrow> getNodeCharsSize r)) = Some r" by simp
      from ih [OF this] x(2) show ?thesis by simp
    qed
  qed
qed

lemma ew_checkCount:
  assumes "engine_written st"
  shows "\<exists>st'. checkCount cfg st = Inr st' \<and> engine_written st'"
  using assms ew_removeHead [OF assms] by (auto simp: checkCount_def ew_counters)

lemma ew_checkCapacity:
  assumes "engine_written st"
  shows "checkCapacity cfg n st = None \<or> (\<exists>st'. checkCapacity cfg n st = Some (Inr st') \<and> engine_written st')"
proof (cases "\<exists>cap. charsCapacity cfg = Some cap \<and> 0 < cap")
  case False
  with ew_checkCount [OF assms, of cfg] show ?thesis
    by (cases "charsCapacity cfg") (auto simp: checkCapacity_def)
next
  case True
  then obtain cap where cap: "charsCapacity cfg = Some cap" "0 < cap" by blast
  show ?thesis
  proof (cases "evictLoop (getCharsSize cfg st) (getNewNodeEstimatedSize (node_key n) (node_value n)) cap st 0 0")
    case None
    with cap show ?thesis by (simp add: checkCapacity_def)
  next
    case (Some r)
    from ew_evictLoop [OF Some] assms obtain st1 a b where r: "r = Inr (st1, a, b)" "engine_written st1"
      by blast
    have "engine_written (decreaseCharsSize cfg b (decreaseSize cfg a st1))"
      using r(2) by (simp add: ew_counters)
    from ew_checkCount [OF this, of cfg] Some r(1) cap show ?thesis
      by (auto simp: checkCapacity_def)
  qed
qed

lemma ew_initialize:
  assumes "engine_written st" "\<not> reserved k"
  shows "engine_written (initialize \<lparr>node_value = v, node_key = k, node_next = None, node_prev = None\<rparr> st)"
proof -
  have 1: "engine_written (st(tailKeyPointer \<mapsto> Text k))"
    using ew_anchor_write [OF assms, of tailKeyPointer] by simp
  have 2: "engine_written (st(tailKeyPointer \<mapsto> Text k, headKeyPointer \<mapsto> Text k))"
    using ew_anchor_write [OF 1 assms(2), of headKeyPointer] by simp
  have 3: "engine_written (st(tailKeyPointer \<mapsto> Text k, headKeyPointer \<mapsto> Text k,
              charsSizeKey \<mapsto> Text (string_of_int getMetadataEstimatedCharsSize)))"
    using ew_counter_write [OF 2, of charsSizeKey] by simp
  show ?thesis
    using 3 assms(2) by (auto simp: initialize_def Let_def ok_node_def ok_ref_def intro!: ew_setNode)
qed

lemma ew_lru_set:
  assumes "engine_written st" "\<not> reserved k"
  shows "lru_set cfg k v st = None \<or> (\<exists>st'. lru_set cfg k v st = Some (Inr st') \<and> engine_written st')"
proof -
  let ?n = "\<lparr>node_value = v, node_key = k, node_next = None, node_prev = None\<rparr>"
  have okn: "ok_node ?n" using assms(2) by (simp add: ok_node_def ok_ref_def)
  from ew_getNode [OF assms] show ?thesis
  proof
    assume g: "getNode k st = Inr None"
    show ?thesis
    proof (cases "getSize cfg st = 0")
      case True
      with g ew_initialize [OF assms, of v] show ?thesis
        by (simp add: lru_set_def addNewNode_def Let_def ew_counters)
    next
      case False
      from ew_checkCapacity [OF assms(1), of cfg ?n] show ?thesis
      proof
        assume "checkCapacity cfg ?n st = None"
        with g False show ?thesis by (simp add: lru_set_def addNewNode_def Let_def)
      next
        assume "\<exists>st1. checkCapacity cfg ?n st = Some (Inr st1) \<and> engine_written st1"
        then obtain st1 where c: "checkCapacity cfg ?n st = Some (Inr st1)" "engine_written st1" by blast
        from ew_setTail [OF c(2) okn] obtain st2 where t: "setTail ?n st1 = Inr st2" "engine_written st2"
          by blast
        with g False c(1) show ?thesis
          by (simp add: lru_set_def addNewNode_def Let_def ew_counters)
      qed
    qed
  next
    assume "\<exists>n. getNode k st = Inr (Some n) \<and> st k = Some (NodeCell n) \<and> ok_node n"
    then obtain n where n: "getNode k st = Inr (Some n)" "ok_node n" by blast
    have "engine_written (setNode k (n\<lparr>node_value := v\<rparr>) st)"
      using assms n(2) by (intro ew_setNode) (auto simp: ok_node_def)
    from ew_lru_get [OF this assms(2)] n(1) show ?thesis
      by (auto simp: lru_set_def)
  qed
qed

lemma ew_walk:
  assumes "walk field st cur = Some r"
  shows "engine_written st \<and> (\<forall>n. ok_node n \<longrightarrow> ok_ref (field n)) \<and> (\<forall>n. cur = Some n \<longrightarrow> ok_node n)
           \<longrightarrow> snd r = None"
proof (rule walk.raw_induct
    [where P = "\<lambda>field st cur r. engine_written st \<and> (\<forall>n. ok_node n \<longrightarrow> ok_ref (field n))
                  \<and> (\<forall>n. cur = Some n \<longrightarrow> ok_node n) \<longrightarrow> snd r = None", OF _ assms])
  fix f :: "(node \<Rightarrow> string option) \<Rightarrow> storage \<Rightarrow> node option \<Rightarrow> (entry list \<times> error option) option"
    and field st cur r
  assume ih: "\<And>field st cur r. f field st cur = Some r \<Longrightarrow>
          engine_written st \<and> (\<forall>n. ok_node n \<longrightarrow> ok_ref (field n)) \<and> (\<forall>n. cur = Some n \<longrightarrow> ok_node n)
            \<longrightarrow> snd r = None"
    and step: "(case ref_of field cur of
        None \<Rightarrow> Some ([], None)
      | Some k \<Rightarrow>
          (case getNode k st of
             Inl e \<Rightarrow> Some ([], Some e)
           | Inr c \<Rightarrow> Option.bind (f field st c) (\<lambda>r. Some (entry_of c # fst r, snd r)))) = Some r"
  show "engine_written st \<and> (\<forall>n. ok_node n \<longrightarrow> ok_ref (field n)) \<and> (\<forall>n. cur = Some n \<longrightarrow> ok_node n)
            \<longrightarrow> snd r = None"
  proof
    assume a: "engine_written st \<and> (\<forall>n. ok_node n \<longrightarrow> ok_ref (field n)) \<and> (\<forall>n. cur = Some n \<longrightarrow> ok_node n)"
    show "snd r = None"
    proof (cases "ref_of field cur")
      case None
      with step show ?thesis by auto
    next
      case (Some k)
      then obtain n where n: "cur = Some n" "field n = Some k"
        by (auto simp: ref_of_def split: option.splits if_splits)
      with a have "\<not> reserved k" by (auto simp: ok_ref_def)
      from ew_getNode [OF _ this, of st] a obtain c where
        c: "getNode k st = Inr c" "\<forall>m. c = Some m \<longrightarrow> ok_node m" by auto
      with step Some obtain r' where r': "f field st c = Some r'" "r = (entry_of c # fst r', snd r')"
        by (auto simp: bind_eq_Some_conv)
      from ih [OF r'(1)] a c(2) r'(2) show ?thesis by simp
    qed
  qed
qed

lemma ew_entries:
  assumes "engine_written st"
  shows "entries st = None \<or> (\<exists>es. entries st = Some (es, None))"
    and "reverseEntries st = None \<or> (\<exists>es. reverseEntries st = Some (es, None))"
proof -
  have fn: "\<forall>n. ok_node n \<longrightarrow> ok_ref (node_next n)" and fp: "\<forall>n. ok_node n \<longrightarrow> ok_ref (node_prev n)"
    by (auto simp: ok_node_def)
  obtain t where t: "getTail st = Inr t" "\<forall>n. t = Some n \<longrightarrow> ok_node n"
    using ew_getTail [OF assms] by auto
  show "entries st = None \<or> (\<exists>es. entries st = Some (es, None))"
  proof (cases "walk node_next st t")
    case None
    with t show ?thesis by (simp add: entries_def)
  next
    case (Some r)
    from ew_walk [OF Some] assms fn t(2) have "snd r = None" by blast
    with Some t(1) show ?thesis by (cases r) (simp add: entries_def)
  qed
  obtain h where h: "getHead st = Inr h" "\<forall>n. h = Some n \<longrightarrow> ok_node n"
    using ew_getHead [OF assms] by auto
  show "reverseEntries st = None \<or> (\<exists>es. reverseEntries st = Some (es, None))"
  proof (cases "walk node_prev st h")
    case None
    with h show ?thesis by (simp add: reverseEntries_def)
  next
    case (Some r)
    from ew_walk [OF Some] assms fp h(2) have "snd r = None" by blast
    with Some h(1) show ?thesis by (cases r) (simp add: reverseEntries_def)
  qed
qed

lemma emptied_reached:
  "run one_slot [Set ''1'' (JStr ''a''), Set ''2'' (JStr ''b'')] Map.empty = Some (Inr emptied)"
proof -
  have np: "\<not> promises one_slot" by (simp add: one_slot_def)
  have v1: "valid_key ''1''" and v2: "valid_key ''2''"
    by (simp_all add: valid_key_def reserved_def tailKeyPointer_def headKeyPointer_def sizeKey_def charsSizeKey_def)
  have w: "wf_list [(''1'', JStr ''a'')]" using v1 by (simp add: wf_list_def)
  have e: "getMetadataEstimatedCharsSize + getNewNodeEstimatedSize ''1'' (JStr ''a'') = 337"
    "getNewNodeEstimatedSize ''2'' (JStr ''b'') = 46" by code_simp+
  have g: "getNode ''2'' (lru_state [(''1'', JStr ''a'')] 1 337) = Inr None"
    using v2 by (intro getNode_absent) auto
  let ?d = "(lru_state [(''1'', JStr ''a'')] 1 337)(''1'' := None)"
  have c: "checkCount one_slot (lru_state [(''1'', JStr ''a'')] 1 337) = Inr (decreaseSize one_slot 1 ?d)"
    using np by (simp add: checkCount_def getSize_state removeHead_single_state [OF w] one_slot_def)
  have t: "getTail (decreaseSize one_slot 1 ?d) = Inr None"
    by (intro getTail_dangling [of _ "''1''"])
       (simp_all add: decreaseSize_def lru_state_def tailKeyPointer_def headKeyPointer_def sizeKey_def
         charsSizeKey_def)
  have f: "increaseCharsSize one_slot 46 (increaseSize one_slot (decreaseSize one_slot 1 ?d)) = emptied"
    by (rule ext)
       (simp add: increaseCharsSize_def increaseSize_def decreaseSize_def getSize_def getCharsSize_def
         storage_get_def number_or_zero_def Number_string_of_int one_slot_def emptied_def lru_state_def
         tailKeyPointer_def headKeyPointer_def sizeKey_def charsSizeKey_def)
  have "lru_set one_slot ''2'' (JStr ''b'') (lru_state [(''1'', JStr ''a'')] 1 337) = Some (Inr emptied)"
    using np c t f e(2)
    by (simp add: lru_set_def g addNewNode_def Let_def getSize_state checkCapacity_def one_slot_def
        setTail_def)
  then show ?thesis
    using lru_set_first [OF v1 np, of "JStr ''a''"] e(1) by simp
qed

lemma lru_set_dangling_head_diverges:
  assumes "getNode k st = Inr None" "getSize cfg st \<noteq> 0"
    and "charsCapacity cfg = Some cap" "0 < cap" "cap < getCharsSize cfg st + getNewNodeEstimatedSize k v"
    and "getHead st = Inr None"
  shows "lru_set cfg k v st = None"
proof -
  have "evictLoop (getCharsSize cfg st) (getNewNodeEstimatedSize k v) cap st 0 0 = None"
    using assms(5,6) by (intro evictLoop_diverges) auto
  with assms show ?thesis
    by (simp add: lru_set_def addNewNode_def Let_def checkCapacity_def)
qed

lemma ew_orphaned: "engine_written orphaned"
  by (auto simp: engine_written_def orphaned_def lru_state_def ok_cell_def ok_node_def ok_ref_def reserved_def
      tailKeyPointer_def headKeyPointer_def sizeKey_def charsSizeKey_def)

lemma ew_emptied: "engine_written emptied"
  by (auto simp: engine_written_def emptied_def lru_state_def ok_cell_def ok_node_def ok_ref_def reserved_def
      tailKeyPointer_def headKeyPointer_def sizeKey_def charsSizeKey_def)

subsection \<open>The scenario and the overwrite, on a storage that answers at once\<close>

text \<open>
  With capacity 3, no byte capacity and a storage that returns its results at once, the
  scenario of the specification gives the traversals \<open>[3,2,1]\<close>, \<open>[4,3,2]\<close>, \<open>[2,4,3]\<close> and
  \<open>[5,2,4]\<close>, with keys 1 and 3 evicted.
\<close>

lemma scenario_immediate_storage:
  "traversal scenario_config first_three
     = Some ([(Some ''3'', JStr ''c''), (Some ''2'', JStr ''b''), (Some ''1'', JStr ''a'')], None)
   \<and> traversal scenario_config (first_three @ [Set ''4'' (JStr ''d'')])
     = Some ([(Some ''4'', JStr ''d''), (Some ''3'', JStr ''c''), (Some ''2'', JStr ''b'')], None)
   \<and> lookup_after scenario_config (first_three @ [Set ''4'' (JStr ''d'')]) ''1'' = Some (Inr None)
   \<and> traversal scenario_config (first_three @ [Set ''4'' (JStr ''d''), Get ''2''])
     = Some ([(Some ''2'', JStr ''b''), (Some ''4'', JStr ''d''), (Some ''3'', JStr ''c'')], None)
   \<and> traversal scenario_config (first_three @ [Set ''4'' (JStr ''d''), Get ''2'', Set ''5'' (JStr ''e'')])
     = Some ([(Some ''5'', JStr ''e''), (Some ''2'', JStr ''b''), (Some ''4'', JStr ''d'')], None)
   \<and> lookup_after scenario_config (first_three @ [Set ''4'' (JStr ''d''), Get ''2'', Set ''5'' (JStr ''e'')]) ''3''
     = Some (Inr None)"
  by code_simp

text \<open>
  On a cache that holds a well-formed list, \<open>set\<close> of a key that is present returns, leaves
  the count as it was, and leaves a traversal that starts with that key and the new value,
  followed by the other entries in their former order.
\<close>

lemma set_present_key:
  assumes "wf_list xs" "(k, v) \<in> set xs"
  shows "\<exists>st'. lru_set cfg k v' (lru_state xs sz ch) = Some (Inr st')
           \<and> getSize cfg st' = getSize cfg (lru_state xs sz ch)
           \<and> entries st' = Some ((Some k, v') # entry_list (filter (\<lambda>e. fst e \<noteq> k) xs), None)"
proof -
  from assms(2) obtain ys zs where xs: "xs = ys @ (k, v) # zs" by (auto dest: split_list)
  have d: "k \<notin> fst ` set ys" "k \<notin> fst ` set zs" using assms(1) xs by (auto simp: wf_list_def)
  then have f: "filter (\<lambda>e. fst e \<noteq> k) xs = ys @ zs" by (simp add: xs filter_other_keys)
  have wf': "wf_list ((k, v') # ys @ zs)" using assms(1) xs by (auto simp: wf_list_def)
  have "lru_set cfg k v' (lru_state xs sz ch) = Some (Inr (lru_state ((k, v') # ys @ zs) sz ch))"
    using lru_set_present [of ys k v zs cfg v' sz ch] assms(1) xs by simp
  moreover have "entries (lru_state ((k, v') # ys @ zs) sz ch) = Some (entry_list ((k, v') # ys @ zs), None)"
    using wf' by (rule entries_state)
  ultimately show ?thesis by (simp add: f entry_list_def getSize_def storage_get_def state_reads)
qed

section \<open>Properties\<close>

text \<open>
  C1. With capacity 1 the claim fails. The second insertion evicts the only entry before
  the new node is linked, the link then finds no tail node and stores nothing: after
  \<open>set(1,"a"); set(2,"b")\<close> the cache holds neither key, although key 2 was touched last,
  and the traversal yields the single pair \<open>[undefined, undefined]\<close>.
\<close>

theorem capacity_one_loses_insertion:
  "traversal one_slot [Set ''1'' (JStr ''a''), Set ''2'' (JStr ''b'')] = Some ([(None, JUndefined)], None)
   \<and> lookup_after one_slot [Set ''1'' (JStr ''a''), Set ''2'' (JStr ''b'')] ''2'' = Some (Inr None)
   \<and> lookup_after one_slot [Set ''1'' (JStr ''a''), Set ''2'' (JStr ''b'')] ''1'' = Some (Inr None)"
  by code_simp

text \<open>
  C2. The scenario fails on a storage whose methods return promises, which the interface
  of the storage allows. \<open>_getSize\<close> does not await the read of the count, reads 0 every time
  and takes every insertion for the first one: each \<open>set\<close> of a new key resets both anchors
  to that key. After \<open>set(1,"a"); set(2,"b"); set(3,"c")\<close> the traversal is \<open>[3]\<close>, not
  \<open>[3,2,1]\<close>; after \<open>set(4,"d")\<close> it is \<open>[4]\<close>; after \<open>get(2)\<close> it is \<open>[2,4]\<close>; after
  \<open>set(5,"e")\<close> it is \<open>[5]\<close>. No key is evicted: the records of keys 1 and 3 stay in the
  storage.
\<close>

theorem scenario_promise_storage:
  "traversal promise_config first_three = Some ([(Some ''3'', JStr ''c'')], None)
   \<and> traversal promise_config (first_three @ [Set ''4'' (JStr ''d'')]) = Some ([(Some ''4'', JStr ''d'')], None)
   \<and> lookup_after promise_config (first_three @ [Set ''4'' (JStr ''d'')]) ''1''
     = Some (Inr (Some \<lparr>node_value = JStr ''a'', node_key = ''1'', node_next = None, node_prev = None\<rparr>))
   \<and> traversal promise_config (first_three @ [Set ''4'' (JStr ''d''), Get ''2''])
     = Some ([(Some ''2'', JStr ''b''), (Some ''4'', JStr ''d'')], None)
   \<and> traversal promise_config (first_three @ [Set ''4'' (JStr ''d''), Get ''2'', Set ''5'' (JStr ''e'')])
     = Some ([(Some ''5'', JStr ''e'')], None)
   \<and> lookup_after promise_config (first_three @ [Set ''4'' (JStr ''d''), Get ''2'', Set ''5'' (JStr ''e'')]) ''3''
     = Some (Inr (Some \<lparr>node_value = JStr ''c'', node_key = ''3'', node_next = None, node_prev = None\<rparr>))"
  by code_simp

text \<open>
  C3. On an empty cache both iteration producers should yield nothing. The code yields
  once before it looks at the node it read: on an empty storage \<open>entries\<close> and
  \<open>reverseEntries\<close> each yield the single pair \<open>[undefined, undefined]\<close>.
\<close>

theorem entries_empty_storage:
  "entries Map.empty = Some ([(None, JUndefined)], None)
   \<and> reverseEntries Map.empty = Some ([(None, JUndefined)], None)"
  by code_simp

text \<open>
  C4. As stated the claim fails: after \<open>set("1","a")\<close> on a new cache, removing the head
  leaves both anchors holding the key \<open>1\<close>.
\<close>

theorem removeHead_single_counterexample:
  "(case lru_set scenario_config ''1'' (JStr ''a'') Map.empty of
      Some (Inr st) \<Rightarrow> (case removeHead st of Inl e \<Rightarrow> None | Inr (r, st') \<Rightarrow> Some (anchors st'))
    | _ \<Rightarrow> None)
     = Some (Some ''1'', Some ''1'')"
  by (simp add: one_entry_reached scenario_config_def one_entry_def removeHead_def getHead_def storage_get_def state_reads
      getNode_def lru_state_def anchors_def tailKeyPointer_def headKeyPointer_def sizeKey_def charsSizeKey_def)

text \<open>
  C4, amended. Removing the head of a cache that holds exactly one node deletes the record
  of that node and leaves both anchors as they were, holding the removed key; the key has
  no record any more, so reading the head node or the tail node afterwards gives nothing.
\<close>

theorem removeHead_single:
  assumes "wf_list [(k, v)]"
  shows "\<exists>r st'. removeHead (lru_state [(k, v)] sz ch) = Inr (r, st')
           \<and> st' k = None \<and> anchors st' = (Some k, Some k)
           \<and> getHead st' = Inr None \<and> getTail st' = Inr None"
proof -
  have vk: "valid_key k" using assms by (simp add: wf_list_def)
  let ?st' = "(lru_state [(k, v)] sz ch)(k := None)"
  have a: "?st' headKeyPointer = Some (Text k)" "?st' tailKeyPointer = Some (Text k)" "?st' k = None"
    using valid_keyD [OF vk] by (auto simp: state_reads)
  then have "anchors ?st' = (Some k, Some k)" "getHead ?st' = Inr None" "getTail ?st' = Inr None"
    by (auto simp: anchors_def storage_get_def intro: getHead_dangling getTail_dangling)
  with removeHead_single_state [OF assms, of sz ch] a(3) show ?thesis by simp
qed

theorem removeHead_single_witness:
  "wf_list [(''1'', JStr ''a'')]
   \<and> (\<exists>r st'. removeHead one_entry = Inr (r, st')
           \<and> st' ''1'' = None \<and> anchors st' = (Some ''1'', Some ''1'')
           \<and> getHead st' = Inr None \<and> getTail st' = Inr None)"
proof -
  have w: "wf_list [(''1'', JStr ''a'')]"
    by (simp add: wf_list_def valid_key_def reserved_def tailKeyPointer_def headKeyPointer_def sizeKey_def charsSizeKey_def)
  show ?thesis
    using w removeHead_single [OF w, of 1 337] by (simp add: one_entry_def)
qed

text \<open>
  C5. As stated the claim fails: with a byte capacity of 1000, after \<open>set("1","a")\<close> on a
  new cache the tracked estimate is 337, and the estimate of the only live node is 46. The
  first insertion starts the counter at the estimate of the four metadata records.
\<close>

theorem byte_estimate_counterexample:
  "(case lru_set byte_config ''1'' (JStr ''a'') Map.empty of
      Some (Inr st) \<Rightarrow> Some (getCharsSize byte_config st, map_option (\<lambda>r. estimates (fst r)) (entries st))
    | _ \<Rightarrow> None)
   = Some (337, Some 46)"
  by code_simp

text \<open>
  C5, amended. With byte capacity enabled, on a storage that returns its results at once
  and with keys that are not empty and not one of the four reserved keys: after a run on a
  new cache that evicts no entry and replaces no value, the tracked estimate is the
  estimate of the metadata records (291) plus the sum of the estimates of the live nodes,
  once an entry was inserted, and 0 before. The estimate of a node is a function of its key
  and its value alone: it is computed as if both neighbour references held the key.
\<close>

theorem byte_estimate_without_eviction:
  assumes "\<not> promises cfg" "charsCapacity cfg = Some cap" "fits cfg cap [] ops"
  shows "\<exists>st. run cfg ops Map.empty = Some (Inr st)
           \<and> (st = Map.empty \<and> getCharsSize cfg st = 0
              \<or> (\<exists>es. entries st = Some (es, None)
                       \<and> getCharsSize cfg st = getMetadataEstimatedCharsSize + estimates es))"
proof -
  from run_fits [OF assms(2,3) _ assms(1)] obtain ys where
    r: "run cfg ops (accounted []) = Some (Inr (accounted ys))" and w: "ys = [] \<or> wf_list ys"
    by auto
  show ?thesis
  proof (cases "ys = []")
    case True
    with r show ?thesis
      by (simp add: accounted_def getCharsSize_def storage_get_def number_or_zero_def)
  next
    case False
    with w have wf: "wf_list ys" by simp
    from False r entries_state [OF wf] show ?thesis
      by (simp add: accounted_def getCharsSize_state [OF assms(1)] estimate_sum_entries)
  qed
qed

theorem byte_estimate_without_eviction_witness:
  "\<not> promises byte_config
   \<and> charsCapacity byte_config = Some 1000
   \<and> fits byte_config 1000 [] [Set ''1'' (JStr ''a''), Set ''2'' (JStr ''b''), Get ''1'']
   \<and> (\<exists>st. run byte_config [Set ''1'' (JStr ''a''), Set ''2'' (JStr ''b''), Get ''1''] Map.empty = Some (Inr st)
           \<and> (st = Map.empty \<and> getCharsSize byte_config st = 0
              \<or> (\<exists>es. entries st = Some (es, None)
                       \<and> getCharsSize byte_config st = getMetadataEstimatedCharsSize + estimates es)))"
proof -
  have p: "\<not> promises byte_config" by (simp add: byte_config_def)
  have c: "charsCapacity byte_config = Some 1000" by (simp add: byte_config_def)
  have f: "fits byte_config 1000 [] [Set ''1'' (JStr ''a''), Set ''2'' (JStr ''b''), Get ''1'']"
    by code_simp
  show ?thesis
    using p c f byte_estimate_without_eviction [OF p c f] by simp
qed

text \<open>
  C6. With capacity 100 and a byte capacity of 50, \<open>set\<close> of one value whose estimate
  (65) exceeds the byte capacity succeeds and the cache holds that entry alone. The next
  \<open>set\<close> of a new key should evict it and return. It evicts it, the budget is still
  exceeded, and the eviction loop goes on removing the head of an empty list for ever: the
  call never returns.
\<close>

theorem large_entry_then_insert_never_returns:
  "getNewNodeEstimatedSize ''a'' large_value = 65
   \<and> (case lru_set small_bytes ''a'' large_value Map.empty of
      Some (Inr st) \<Rightarrow>
        (entries st, getSize small_bytes st, lru_set small_bytes ''b'' (JStr ''y'') st)
    | _ \<Rightarrow> (None, 0, None))
   = (Some ([(Some ''a'', large_value)], None), 1, None)"
proof -
  have va: "valid_key ''a''" and vb: "valid_key ''b''"
    by (simp_all add: valid_key_def reserved_def tailKeyPointer_def headKeyPointer_def sizeKey_def charsSizeKey_def)
  have w: "wf_list [(''a'', large_value)]" using va by (simp add: wf_list_def)
  have e: "getNewNodeEstimatedSize ''b'' (JStr ''y'') = 46"
    by code_simp
  have e0: "getNodeCharsSize \<lparr>node_value = large_value, node_key = ''a'', node_next = None, node_prev = None\<rparr> = 43"
    by code_simp
  have e1: "getNewNodeEstimatedSize ''a'' large_value = 65"
    by code_simp
  have m: "getMetadataEstimatedCharsSize = 291"
    by code_simp
  have np: "\<not> promises small_bytes" by (simp add: small_bytes_def)
  have d: "lru_set small_bytes ''b'' (JStr ''y'') (lru_state [(''a'', large_value)] 1 356) = None"
    using w vb by (rule lru_set_single_diverges [where cap = 50]) (simp_all add: small_bytes_def e e0)
  show ?thesis
    using d e1 by (simp add: lru_set_first [OF va np] m entries_state [OF w] getSize_state [OF np] entry_list_def)
qed

text \<open>
  C7. As stated the claim fails. With capacity 1, after \<open>set(1,"a"); set(2,"b")\<close> both
  anchors name key 1, which has no record. Removing the head, \<open>get(1)\<close> and a further
  \<open>set(3,"c")\<close> all meet the reference and complete without an error (the last component
  says that the run of \<open>set(3,"c")\<close> did not end in an error).
\<close>

theorem dangling_reference_counterexample:
  "(case run one_slot [Set ''1'' (JStr ''a''), Set ''2'' (JStr ''b'')] Map.empty of
      Some (Inr st) \<Rightarrow>
        Some (anchors st, getNode ''1'' st, map_sum id fst (removeHead st), map_sum id fst (lru_get ''1'' st),
              map_option isl (run one_slot [Set ''3'' (JStr ''c'')] st))
    | _ \<Rightarrow> None)
   = Some ((Some ''1'', Some ''1''), Inr None, Inr None, Inr JUndefined, Some False)"
  by code_simp

text \<open>
  C7, amended. On a storage that only the engine wrote and from which records may be
  missing, a neighbour or anchor reference to a key \<open>p\<close> that has no record is read as an
  absent node and no operation ends in an error; there is no \<open>BrokenLink\<close> error and no
  repair. \<open>get\<close> of any key that is not reserved returns; \<open>set\<close> returns or never returns
  (the eviction loop of the byte capacity does not end when the head anchor dangles); a
  traversal ends without an error or never ends. The step that needed the node is
  skipped: the link of a new tail does nothing when the tail anchor names \<open>p\<close>; the
  eviction removes nothing when the head anchor names \<open>p\<close>, and deletes the head and leaves
  the head anchor as it was when the reference of the head names \<open>p\<close>; the promotion of a
  node writes no neighbour on the side where its reference names \<open>p\<close>.
\<close>

theorem missing_record_is_no_error:
  assumes "engine_written st" "\<not> reserved k" "st p = None"
  shows "getNode p st = Inr None
     \<and> (\<exists>r st'. lru_get k st = Inr (r, st'))
     \<and> (lru_set cfg k v st = None \<or> (\<exists>st'. lru_set cfg k v st = Some (Inr st')))
     \<and> (entries st = None \<or> (\<exists>es. entries st = Some (es, None)))
     \<and> (reverseEntries st = None \<or> (\<exists>es. reverseEntries st = Some (es, None)))
     \<and> (st tailKeyPointer = Some (Text p) \<longrightarrow> setTail n st = Inr st)
     \<and> (st headKeyPointer = Some (Text p) \<longrightarrow> removeHead st = Inr (None, st))
     \<and> (st headKeyPointer = Some (Text h) \<and> st h = Some (NodeCell hn) \<and> h \<noteq> [] \<and> node_prev hn = Some p
          \<longrightarrow> removeHead st = Inr (Some hn, if node_key hn \<noteq> [] then st(node_key hn := None) else st))
     \<and> (node_prev n = Some p
          \<longrightarrow> setAsTop n st =
               (case lookup_ref (node_next n) st of
                  Inl e \<Rightarrow> Inl e
                | Inr None \<Rightarrow> setTail n st
                | Inr (Some x) \<Rightarrow> setTail n (setNode (node_key x) (x\<lparr>node_prev := Some p\<rparr>) st)))
     \<and> (node_next n = Some p
          \<longrightarrow> setAsTop n st =
               (case lookup_ref (node_prev n) st of
                  Inl e \<Rightarrow> Inl e
                | Inr None \<Rightarrow> setTail n st
                | Inr (Some q) \<Rightarrow>
                    setTail n ((setNode (node_key q) (q\<lparr>node_next := Some p\<rparr>) st)
                                 (headKeyPointer \<mapsto> Text (node_key q)))))"
proof -
  have g: "getNode p st = Inr None" using assms(3) by (simp add: getNode_def)
  have l: "lookup_ref (Some p) st = Inr None" using g by (simp add: lookup_ref_def)
  have a: "\<exists>r st'. lru_get k st = Inr (r, st')" using ew_lru_get [OF assms(1,2)] by blast
  have b: "lru_set cfg k v st = None \<or> (\<exists>st'. lru_set cfg k v st = Some (Inr st'))"
    using ew_lru_set [OF assms(1,2), of cfg v] by blast
  have c: "st tailKeyPointer = Some (Text p) \<longrightarrow> setTail n st = Inr st"
    using assms(3) by (auto simp: setTail_def getTail_def storage_get_def getNode_def)
  have d: "st headKeyPointer = Some (Text p) \<longrightarrow> removeHead st = Inr (None, st)"
    using assms(3) by (auto simp: removeHead_def getHead_def storage_get_def getNode_def)
  have e: "st headKeyPointer = Some (Text h) \<and> st h = Some (NodeCell hn) \<and> h \<noteq> [] \<and> node_prev hn = Some p
          \<longrightarrow> removeHead st = Inr (Some hn, if node_key hn \<noteq> [] then st(node_key hn := None) else st)"
    using assms(3) by (auto simp: removeHead_def getHead_def storage_get_def getNode_def)
  have f: "node_prev n = Some p
          \<longrightarrow> setAsTop n st =
               (case lookup_ref (node_next n) st of
                  Inl e \<Rightarrow> Inl e
                | Inr None \<Rightarrow> setTail n st
                | Inr (Some x) \<Rightarrow> setTail n (setNode (node_key x) (x\<lparr>node_prev := Some p\<rparr>) st))"
    using l by (auto simp: setAsTop_def Let_def split: sum.splits option.splits)
  have h: "node_next n = Some p
          \<longrightarrow> setAsTop n st =
               (case lookup_ref (node_prev n) st of
                  Inl e \<Rightarrow> Inl e
                | Inr None \<Rightarrow> setTail n st
                | Inr (Some q) \<Rightarrow>
                    setTail n ((setNode (node_key q) (q\<lparr>node_next := Some p\<rparr>) st)
                                 (headKeyPointer \<mapsto> Text (node_key q))))"
    using l by (auto simp: setAsTop_def Let_def split: sum.splits option.splits)
  from g a b ew_entries [OF assms(1)] c d e f h show ?thesis by blast
qed

theorem missing_record_is_no_error_witness:
  "engine_written orphaned \<and> \<not> reserved ''2'' \<and> orphaned ''1'' = None
   \<and> getNode ''1'' orphaned = Inr None
   \<and> (\<exists>r st'. lru_get ''2'' orphaned = Inr (r, st'))
   \<and> (lru_set scenario_config ''2'' (JStr ''z'') orphaned = None
        \<or> (\<exists>st'. lru_set scenario_config ''2'' (JStr ''z'') orphaned = Some (Inr st')))
   \<and> (entries orphaned = None \<or> (\<exists>es. entries orphaned = Some (es, None)))
   \<and> (reverseEntries orphaned = None \<or> (\<exists>es. reverseEntries orphaned = Some (es, None)))
   \<and> orphaned tailKeyPointer = Some (Text ''1'')
   \<and> setTail \<lparr>node_value = JStr ''c'', node_key = ''3'', node_next = Some ''1'', node_prev = Some ''1''\<rparr> orphaned
       = Inr orphaned
   \<and> orphaned headKeyPointer = Some (Text ''2'')
   \<and> orphaned ''2'' = Some (NodeCell \<lparr>node_value = JStr ''b'', node_key = ''2'', node_next = None, node_prev = Some ''1''\<rparr>)
   \<and> removeHead orphaned
       = Inr (Some \<lparr>node_value = JStr ''b'', node_key = ''2'', node_next = None, node_prev = Some ''1''\<rparr>,
              orphaned(''2'' := None))
   \<and> setAsTop \<lparr>node_value = JStr ''c'', node_key = ''3'', node_next = Some ''1'', node_prev = Some ''1''\<rparr> orphaned
       = Inr orphaned
   \<and> engine_written emptied \<and> emptied ''1'' = None
   \<and> emptied headKeyPointer = Some (Text ''1'')
   \<and> removeHead emptied = Inr (None, emptied)"
proof -
  let ?n = "\<lparr>node_value = JStr ''c'', node_key = ''3'', node_next = Some ''1'', node_prev = Some ''1''\<rparr>"
  let ?h = "\<lparr>node_value = JStr ''b'', node_key = ''2'', node_next = None, node_prev = Some ''1''\<rparr>"
  have r: "\<not> reserved ''2''"
    by (simp add: reserved_def tailKeyPointer_def headKeyPointer_def sizeKey_def charsSizeKey_def)
  have a: "orphaned ''1'' = None" by (simp add: orphaned_def)
  have h: "orphaned tailKeyPointer = Some (Text ''1'')" "orphaned headKeyPointer = Some (Text ''2'')"
    "orphaned ''2'' = Some (NodeCell ?h)"
    by (simp_all add: orphaned_def lru_state_def
        tailKeyPointer_def headKeyPointer_def sizeKey_def charsSizeKey_def)
  have l: "lookup_ref (Some ''1'') orphaned = Inr None"
    using a by (simp add: lookup_ref_def getNode_def)
  have b: "emptied ''1'' = None" by (simp add: emptied_def)
  have c: "emptied headKeyPointer = Some (Text ''1'')"
    by (simp add: emptied_def lru_state_def tailKeyPointer_def headKeyPointer_def sizeKey_def charsSizeKey_def)
  note one = missing_record_is_no_error [OF ew_orphaned r a,
      where cfg = scenario_config and v = "JStr ''z''" and n = ?n and h = "''2''" and hn = ?h]
  note two = missing_record_is_no_error [OF ew_emptied r b,
      where cfg = scenario_config and v = "JStr ''z''" and n = ?n and h = "''2''" and hn = ?h]
  show ?thesis
    using ew_orphaned ew_emptied r a h l b c one two by simp
qed

text \<open>
  C8. The claim fails once the empty string is a key. The engine tests the tail anchor for
  truthiness, so a tail anchor that holds the key \<open>""\<close> reads as no tail at all: after
  \<open>set("a","x"); set("","y")\<close>, the call \<open>set("a","z")\<close> overwrites the value of \<open>a\<close> and
  leaves it where it was, at the least recently used end, with \<open>""\<close> as its more recent
  neighbour and as the tail anchor.
\<close>

theorem empty_key_blocks_promotion:
  "(case run scenario_config [Set ''a'' (JStr ''x''), Set [] (JStr ''y'')] Map.empty of
      Some (Inr st) \<Rightarrow> Some (anchors st, getNode ''a'' st)
    | _ \<Rightarrow> None)
   = Some ((Some [], Some ''a''),
           Inr (Some \<lparr>node_value = JStr ''x'', node_key = ''a'', node_next = None, node_prev = Some []\<rparr>))
   \<and> (case run scenario_config [Set ''a'' (JStr ''x''), Set [] (JStr ''y''), Set ''a'' (JStr ''z'')] Map.empty of
      Some (Inr st) \<Rightarrow> Some (anchors st, getNode ''a'' st)
    | _ \<Rightarrow> None)
   = Some ((Some [], Some ''a''),
           Inr (Some \<lparr>node_value = JStr ''z'', node_key = ''a'', node_next = None, node_prev = Some []\<rparr>))"
  by code_simp

text \<open>
  C9. On a miss the wrapper should invoke \<open>func\<close> once. It tells a completed \<open>try\<close> from a
  failed one by the truthiness of the result, so a result that is falsy is computed twice:
  memoizing the sum of two numbers over the cache and calling it with \<open>(0, 0)\<close>, no step
  raising, reports the miss twice and invokes the function twice. (The digest of the key
  is the identity in this run; the lemmas \<open>memoized_miss_truthy\<close> and
  \<open>memoized_miss_falsy\<close> give both cases for any digest.)
\<close>

theorem memoized_falsy_result_invokes_twice:
  "(case memoize (\<lambda>s. s) zero_call of
      Inl e \<Rightarrow> None
    | Inr m \<Rightarrow>
        map_option (\<lambda>r. (fst r, trace (snd r)))
          (m [JNum 0, JNum 0] \<lparr>cache_state = Map.empty, trace = []\<rparr>))
   = Some (Inr (JNum 0),
           [FuncCalled [JNum 0, JNum 0], Invoke [JNum 0, JNum 0],
            FuncCalled [JNum 0, JNum 0], Invoke [JNum 0, JNum 0]])"
  by code_simp

text \<open>
  C10. A call of \<open>memoize\<close> whose argument has no logger throws a \<open>TypeError\<close> and produces
  no wrapped function, whatever the other properties are.
\<close>

theorem memoize_requires_logger:
  "\<exists>m. memoize md5 (a\<lparr>logger := None\<rparr>) = Inl (TypeError m)"
  by (simp add: memoize_def Let_def)

end
